theory Spec2Isabelle
  imports Main "HOL-Library.Sublist"
begin

section \<open>The mocked electronAPI of verify\_progressive\_loading.py\<close>

text \<open>
  The script injects a JavaScript mock of \<^verbatim>\<open>window.electronAPI\<close> into the page. The mock
  uses three facilities of the browser: the listener table of \<^verbatim>\<open>window\<close>
  (\<^verbatim>\<open>addEventListener\<close>, \<^verbatim>\<open>removeEventListener\<close>, \<^verbatim>\<open>dispatchEvent\<close>), the timer queue
  (\<^verbatim>\<open>setTimeout\<close>) and the clock (\<^verbatim>\<open>Date.now()\<close>). They are modelled as an explicit
  state, the record \<open>window\<close>, passed through every call.
\<close>

subsection \<open>Data\<close>

type_synonym directory_id = string

text \<open>The object literal \<^verbatim>\<open>{ name: `file${i + 1}.png`, lastModified: Date.now() }\<close>.\<close>

record file_entry =
  name :: string
  lastModified :: nat

text \<open>
  The \<^verbatim>\<open>detail\<close> of a CustomEvent: \<^verbatim>\<open>{ directoryId, files }\<close> for a batch and
  \<^verbatim>\<open>{ directoryId, total }\<close> for a completion. The mock builds no other payload.
\<close>

datatype detail =
  Batch_detail directory_id "file_entry list"
| Complete_detail directory_id nat

record custom_event =
  ev_type :: string
  ev_detail :: detail

text \<open>
  A registered listener: the event type, the identity of the handler closure
  \<^verbatim>\<open>(event) => callback(event.detail)\<close> and the callback it wraps. A closure created by a
  call of a subscription function is a new object, so handler identities are natural
  numbers drawn from a counter.
\<close>

record listener =
  l_type :: string
  l_handler :: nat
  l_callback :: nat

text \<open>A pending \<^verbatim>\<open>setTimeout\<close>: the time it is due and the event its callback dispatches.\<close>

record timer =
  due :: nat
  task :: custom_event

text \<open>
  One invocation of a handler: the position of the event in the sequence of dispatched
  events, the handler, the callback it called, and the detail passed to the callback.
\<close>

record delivery =
  d_seq :: nat
  d_handler :: nat
  d_callback :: nat
  d_detail :: detail

record window =
  clock :: nat
  listeners :: "listener list"
  timers :: "timer list"
  next_handler :: nat
  dispatched :: "custom_event list"
  delivered :: "delivery list"

definition init :: window where
  "init = \<lparr>clock = 0, listeners = [], timers = [], next_handler = 0,
           dispatched = [], delivered = []\<rparr>"

text \<open>JavaScript values returned by the mock's functions.\<close>

datatype js_value =
  JS_undefined
| JS_bool bool
| JS_string string
| JS_object "(string \<times> js_value) list"

datatype js_error = TypeError

text \<open>
  The closure \<^verbatim>\<open>() => window.removeEventListener(type, handler)\<close>: it captures the event
  type and the handler.
\<close>

datatype unsubscribe = Unsubscribe string nat

subsection \<open>The browser: listeners, dispatch, timers\<close>

definition registered :: "string \<Rightarrow> nat \<Rightarrow> listener \<Rightarrow> bool" where
  "registered ty h l = (l_type l = ty \<and> l_handler l = h)"

text \<open>Adding a listener that is already registered for the type does nothing.\<close>

definition addEventListener :: "string \<Rightarrow> nat \<Rightarrow> nat \<Rightarrow> window \<Rightarrow> window" where
  "addEventListener ty h cb w =
     (if list_ex (registered ty h) (listeners w) then w
      else w\<lparr>listeners := listeners w @ [\<lparr>l_type = ty, l_handler = h, l_callback = cb\<rparr>]\<rparr>)"

text \<open>Removing a listener that is not registered does nothing and raises nothing.\<close>

definition removeEventListener :: "string \<Rightarrow> nat \<Rightarrow> window \<Rightarrow> window" where
  "removeEventListener ty h w =
     w\<lparr>listeners := filter (\<lambda>l. \<not> registered ty h l) (listeners w)\<rparr>"

definition invoke :: "nat \<Rightarrow> custom_event \<Rightarrow> listener \<Rightarrow> delivery" where
  "invoke n e l =
     \<lparr>d_seq = n, d_handler = l_handler l, d_callback = l_callback l, d_detail = ev_detail e\<rparr>"

text \<open>
  \<^verbatim>\<open>dispatchEvent\<close> calls, synchronously and in registration order, the listeners registered
  for the type of the event at the moment of the dispatch. Each call is logged. What a
  callback does with the detail belongs to the application; a callback is taken not to
  call the mock or the browser back while the event is being dispatched.
\<close>

definition dispatchEvent :: "custom_event \<Rightarrow> window \<Rightarrow> window" where
  "dispatchEvent e w =
     w\<lparr>dispatched := dispatched w @ [e],
       delivered := delivered w @
         map (invoke (length (dispatched w)) e)
             (filter (\<lambda>l. l_type l = ev_type e) (listeners w))\<rparr>"

text \<open>
  The timer queue is kept in firing order: by due time, and first set first fired among
  timers due at the same time.
\<close>

fun enqueue :: "timer \<Rightarrow> timer list \<Rightarrow> timer list" where
  "enqueue t [] = [t]"
| "enqueue t (u # us) = (if due t < due u then t # u # us else u # enqueue t us)"

definition setTimeout :: "custom_event \<Rightarrow> nat \<Rightarrow> window \<Rightarrow> window" where
  "setTimeout e ms w = w\<lparr>timers := enqueue \<lparr>due = clock w + ms, task = e\<rparr> (timers w)\<rparr>"

text \<open>
  One turn of the event loop: the first timer of the queue fires, no earlier than its due
  time, and its callback dispatches its event.
\<close>

definition tick :: "window \<Rightarrow> window" where
  "tick w =
     (case timers w of
        [] \<Rightarrow> w
      | t # ts \<Rightarrow> dispatchEvent (task t) (w\<lparr>timers := ts, clock := max (clock w) (due t)\<rparr>))"

text \<open>The event loop runs until no timer is pending.\<close>

function run_timers :: "window \<Rightarrow> window" where
  "run_timers w = (if timers w = [] then w else run_timers (tick w))"
  by pat_completeness auto
termination
  by (relation "measure (\<lambda>w. length (timers w))")
     (auto simp: tick_def dispatchEvent_def split: list.split)

declare run_timers.simps [simp del]

subsection \<open>The mock\<close>

text \<open>
  The members of the mock that touch the listeners or the timers, and
  \<^verbatim>\<open>updateAllowedPaths\<close>. Its other members (\<^verbatim>\<open>showDirectoryDialog\<close>,
  \<^verbatim>\<open>onMenuAddFolder\<close>, \<^verbatim>\<open>getTheme\<close>) return constants and are left out.
\<close>

text \<open>Decimal digits of a number, as the template literal prints it.\<close>

definition digit :: "nat \<Rightarrow> char" where
  "digit d = char_of (48 + d)"

fun show_nat :: "nat \<Rightarrow> string" where
  "show_nat n = (if n < 10 then [digit n] else show_nat (n div 10) @ [digit (n mod 10)])"

declare show_nat.simps [simp del]

text \<open>
  \<^verbatim>\<open>Array.from({ length: 50 }, (_, i) => ({ name: `file${i + k}.png`, lastModified: Date.now() }))\<close>.
  The clock is read once per element; \<open>now j\<close> is the value of the \<open>j\<close>-th reading of
  \<^verbatim>\<open>Date.now()\<close> made by the call.
\<close>

definition array_from :: "nat \<Rightarrow> (nat \<Rightarrow> 'a) \<Rightarrow> 'a list" where
  "array_from n f = map f [0..<n]"

definition files1 :: "(nat \<Rightarrow> nat) \<Rightarrow> file_entry list" where
  "files1 now =
     array_from 50 (\<lambda>i. \<lparr>name = ''file'' @ show_nat (i + 1) @ ''.png'', lastModified = now i\<rparr>)"

definition files2 :: "(nat \<Rightarrow> nat) \<Rightarrow> file_entry list" where
  "files2 now =
     array_from 50
       (\<lambda>i. \<lparr>name = ''file'' @ show_nat (i + 51) @ ''.png'', lastModified = now (50 + i)\<rparr>)"

text \<open>
  The argument object of \<^verbatim>\<open>streamDirectoryFiles\<close>. The parameter pattern
  \<^verbatim>\<open>{ directoryId }\<close> reads one property of it; whatever else the caller passes
  (its path) is not read.
\<close>

record scan_request =
  directoryId :: directory_id
  path :: string

definition batch_event :: "directory_id \<Rightarrow> file_entry list \<Rightarrow> custom_event" where
  "batch_event d fs = \<lparr>ev_type = ''directory-scan-batch'', ev_detail = Batch_detail d fs\<rparr>"

definition complete_event :: "directory_id \<Rightarrow> nat \<Rightarrow> custom_event" where
  "complete_event d n =
     \<lparr>ev_type = ''directory-scan-complete'', ev_detail = Complete_detail d n\<rparr>"

text \<open>
  \<^verbatim>\<open>streamDirectoryFiles\<close> builds the two arrays, sets three timers and returns
  \<^verbatim>\<open>Promise.resolve({ success: true })\<close>; the first component is the value the promise is
  resolved with.
\<close>

definition streamDirectoryFiles ::
    "scan_request \<Rightarrow> (nat \<Rightarrow> nat) \<Rightarrow> window \<Rightarrow> js_value \<times> window" where
  "streamDirectoryFiles req now w =
     (let d = directoryId req;
          w1 = setTimeout (batch_event d (files1 now)) 100 w;
          w2 = setTimeout (batch_event d (files2 now)) 300 w1;
          w3 = setTimeout (complete_event d 100) 500 w2
      in (JS_object [(''success'', JS_bool True)], w3))"

definition subscribe :: "string \<Rightarrow> nat \<Rightarrow> window \<Rightarrow> unsubscribe option \<times> window" where
  "subscribe ty cb w =
     (let h = next_handler w
      in (Some (Unsubscribe ty h), addEventListener ty h cb (w\<lparr>next_handler := Suc h\<rparr>)))"

definition onDirectoryScanBatch :: "nat \<Rightarrow> window \<Rightarrow> unsubscribe option \<times> window" where
  "onDirectoryScanBatch cb w = subscribe ''directory-scan-batch'' cb w"

definition onDirectoryScanComplete :: "nat \<Rightarrow> window \<Rightarrow> unsubscribe option \<times> window" where
  "onDirectoryScanComplete cb w = subscribe ''directory-scan-complete'' cb w"

text \<open>
  \<^verbatim>\<open>onDirectoryScanError: (callback) => { // No-op for this test }\<close>: nothing is
  registered and the call returns \<^verbatim>\<open>undefined\<close>, here \<open>None\<close>.
\<close>

definition onDirectoryScanError :: "nat \<Rightarrow> window \<Rightarrow> unsubscribe option \<times> window" where
  "onDirectoryScanError cb w = (None, w)"

text \<open>\<^verbatim>\<open>updateAllowedPaths: () => Promise.resolve()\<close>: the arguments are not read.\<close>

definition updateAllowedPaths :: "string list \<Rightarrow> window \<Rightarrow> js_value \<times> window" where
  "updateAllowedPaths paths w = (JS_undefined, w)"

text \<open>
  Calling what a subscription function returned. Calling \<^verbatim>\<open>undefined\<close> raises a
  TypeError; calling the closure removes the listener.
\<close>

fun call_unsubscribe :: "unsubscribe option \<Rightarrow> window \<Rightarrow> js_error + window" where
  "call_unsubscribe None w = Inl TypeError"
| "call_unsubscribe (Some (Unsubscribe ty h)) w = Inr (removeEventListener ty h w)"

subsection \<open>Runs of the page\<close>

text \<open>
  What can happen in the page, one step at a time: a call of one of the mock's functions
  by the application, a call of a value a subscription function returned, a turn of the
  event loop, or time passing while a script runs. A TypeError raised by a call leaves
  the window as it was.
\<close>

datatype action =
  Stream scan_request "nat \<Rightarrow> nat"
| Subscribe_batch nat
| Subscribe_complete nat
| Subscribe_error nat
| Call "unsubscribe option"
| Update_allowed_paths "string list"
| Tick
| Elapse nat

fun perform :: "action \<Rightarrow> window \<Rightarrow> window" where
  "perform (Stream req now) w = snd (streamDirectoryFiles req now w)"
| "perform (Subscribe_batch cb) w = snd (onDirectoryScanBatch cb w)"
| "perform (Subscribe_complete cb) w = snd (onDirectoryScanComplete cb w)"
| "perform (Subscribe_error cb) w = snd (onDirectoryScanError cb w)"
| "perform (Call u) w = (case call_unsubscribe u w of Inl err \<Rightarrow> w | Inr w' \<Rightarrow> w')"
| "perform (Update_allowed_paths ps) w = snd (updateAllowedPaths ps w)"
| "perform Tick w = tick w"
| "perform (Elapse n) w = w\<lparr>clock := clock w + n\<rparr>"

fun steps :: "action list \<Rightarrow> window \<Rightarrow> window" where
  "steps [] w = w"
| "steps (a # as) w = steps as (perform a w)"

text \<open>The directory ids of the scans requested in a run, in request order.\<close>

fun stream_ids :: "action list \<Rightarrow> directory_id list" where
  "stream_ids [] = []"
| "stream_ids (Stream req now # as) = directoryId req # stream_ids as"
| "stream_ids (a # as) = stream_ids as"

subsection \<open>Reading the event log\<close>

fun detail_dir :: "detail \<Rightarrow> directory_id" where
  "detail_dir (Batch_detail d fs) = d"
| "detail_dir (Complete_detail d n) = d"

definition events_for :: "directory_id \<Rightarrow> custom_event list \<Rightarrow> custom_event list" where
  "events_for d es = filter (\<lambda>e. detail_dir (ev_detail e) = d) es"

definition is_batch :: "custom_event \<Rightarrow> bool" where
  "is_batch e = (ev_type e = ''directory-scan-batch'')"

definition is_error :: "custom_event \<Rightarrow> bool" where
  "is_error e = (ev_type e = ''directory-scan-error'')"

definition is_terminal :: "custom_event \<Rightarrow> bool" where
  "is_terminal e = (ev_type e = ''directory-scan-complete'' \<or> is_error e)"

fun batch_size :: "detail \<Rightarrow> nat" where
  "batch_size (Batch_detail d fs) = length fs"
| "batch_size (Complete_detail d n) = 0"

text \<open>The three events one call of \<^verbatim>\<open>streamDirectoryFiles\<close> hands to its timers.\<close>

definition scan_events :: "directory_id \<Rightarrow> (nat \<Rightarrow> nat) \<Rightarrow> custom_event list" where
  "scan_events d now =
     [batch_event d (files1 now), batch_event d (files2 now), complete_event d 100]"

text \<open>The events of the scans requested for one directory id in a run, scan after scan.\<close>

fun scans_of :: "directory_id \<Rightarrow> action list \<Rightarrow> custom_event list" where
  "scans_of d [] = []"
| "scans_of d (Stream req now # as) =
     (if directoryId req = d then scan_events d now else []) @ scans_of d as"
| "scans_of d (a # as) = scans_of d as"

text \<open>The deliveries made to one handler.\<close>

definition deliveries_to :: "nat \<Rightarrow> window \<Rightarrow> delivery list" where
  "deliveries_to h w = filter (\<lambda>x. d_handler x = h) (delivered w)"

text \<open>The deliveries a window has logged beyond those of an earlier window.\<close>

definition deliveries_since :: "window \<Rightarrow> window \<Rightarrow> delivery list" where
  "deliveries_since w0 w = drop (length (delivered w0)) (delivered w)"

text \<open>
  What of an event does not come from the caller or from the clock: its type and, for a
  batch, the names of its files, for a completion, its total.
\<close>

fun shape_of :: "detail \<Rightarrow> string list + nat" where
  "shape_of (Batch_detail d fs) = Inl (map name fs)"
| "shape_of (Complete_detail d n) = Inr n"

definition shape :: "custom_event \<Rightarrow> string \<times> (string list + nat)" where
  "shape e = (ev_type e, shape_of (ev_detail e))"

text \<open>The delays of the pending timers, counted from the current time.\<close>

definition delays :: "window \<Rightarrow> nat list" where
  "delays w = map (\<lambda>t. due t - clock w) (timers w)"

section \<open>The consumer\<close>

text \<open>
  Modelled from the spec: the front-end consumer (the application's handlers for the
  batch, completion and error events and its per-directory state) is not among the source
  files; the script only mocks the scanner it listens to. The definitions of this section
  follow the spec's component design 4.3 and its error handling design: per directory id
  the states Idle, Scanning, Loaded and Errored; Scanning is entered on request
  submission; a batch appends its files to the accumulated sequence and is valid only
  in Scanning; a completion checks the accumulated count against the total and moves to
  Loaded; an error moves to Errored and keeps the partial results; events for a
  directory id in a terminal state are ignored.
\<close>

datatype phase = Idle | Scanning | Loaded | Errored

record dir_state =
  phase :: phase
  accumulated :: "file_entry list"
  count_agrees :: bool

type_synonym consumer = "directory_id \<Rightarrow> dir_state"

definition idle_consumer :: consumer where
  "idle_consumer = (\<lambda>d. \<lparr>phase = Idle, accumulated = [], count_agrees = True\<rparr>)"

definition submit :: "directory_id \<Rightarrow> consumer \<Rightarrow> consumer" where
  "submit d c = (if phase (c d) = Idle then c(d := (c d)\<lparr>phase := Scanning\<rparr>) else c)"

definition on_batch :: "directory_id \<Rightarrow> file_entry list \<Rightarrow> consumer \<Rightarrow> consumer" where
  "on_batch d fs c =
     (if phase (c d) = Scanning then c(d := (c d)\<lparr>accumulated := accumulated (c d) @ fs\<rparr>)
      else c)"

definition on_complete :: "directory_id \<Rightarrow> nat \<Rightarrow> consumer \<Rightarrow> consumer" where
  "on_complete d n c =
     (if phase (c d) = Scanning
      then c(d := (c d)\<lparr>phase := Loaded, count_agrees := (length (accumulated (c d)) = n)\<rparr>)
      else c)"

definition on_error :: "directory_id \<Rightarrow> string \<Rightarrow> consumer \<Rightarrow> consumer" where
  "on_error d reason c =
     (if phase (c d) = Scanning then c(d := (c d)\<lparr>phase := Errored\<rparr>) else c)"

text \<open>The three events of the interface, as they reach the consumer, and their handling.\<close>

datatype scan_event =
  Scan_batch directory_id "file_entry list"
| Scan_complete directory_id nat
| Scan_error directory_id string

fun event_id :: "scan_event \<Rightarrow> directory_id" where
  "event_id (Scan_batch d fs) = d"
| "event_id (Scan_complete d n) = d"
| "event_id (Scan_error d reason) = d"

fun consume :: "consumer \<Rightarrow> scan_event \<Rightarrow> consumer" where
  "consume c (Scan_batch d fs) = on_batch d fs c"
| "consume c (Scan_complete d n) = on_complete d n c"
| "consume c (Scan_error d reason) = on_error d reason c"

definition accumulated_count :: "directory_id \<Rightarrow> consumer \<Rightarrow> nat" where
  "accumulated_count d c = length (accumulated (c d))"

text \<open>
  The consumer listening to the mock: it has subscribed one callback to the batches and
  one to the completions, and each delivery to one of them runs the matching operation.
\<close>

fun feed :: "nat \<Rightarrow> nat \<Rightarrow> consumer \<Rightarrow> delivery \<Rightarrow> consumer" where
  "feed cb_batch cb_complete c x =
     (case d_detail x of
        Batch_detail d fs \<Rightarrow> if d_callback x = cb_batch then on_batch d fs c else c
      | Complete_detail d n \<Rightarrow> if d_callback x = cb_complete then on_complete d n c else c)"

definition consumer_view :: "nat \<Rightarrow> nat \<Rightarrow> consumer \<Rightarrow> window \<Rightarrow> consumer" where
  "consumer_view cb_batch cb_complete c w = foldl (feed cb_batch cb_complete) c (delivered w)"

section \<open>The hotkey scripts\<close>

text \<open>
  \<^verbatim>\<open>verify_hotkeys.py\<close> and \<^verbatim>\<open>verify_hotkeys_fix.py\<close> have the same frame: three calls
  that start the browser, a \<^verbatim>\<open>try\<close> body of Playwright calls, a handler
  \<^verbatim>\<open>except Exception as e\<close> that prints and takes a screenshot, and
  \<^verbatim>\<open>finally: browser.close()\<close>. Each Playwright call either returns or raises; which
  one is decided by the browser and the page, so it is a parameter: \<open>env k\<close> is the
  outcome of the \<open>k\<close>-th call the script makes, \<^verbatim>\<open>print\<close> included: a print raises
  when the standard output is closed or cannot encode the message.
  Locators (\<^verbatim>\<open>page.get_by_text\<close> and the like) are built without talking to the
  browser; they appear as the argument of the expectation that uses them. The enclosing
  \<^verbatim>\<open>with sync_playwright() as playwright\<close> only supplies the argument of the function.
\<close>

text \<open>
  An exception object is an instance of \<^verbatim>\<open>Exception\<close> (Playwright's errors and failed
  expectations are) or of \<^verbatim>\<open>BaseException\<close> only (a KeyboardInterrupt).
\<close>

datatype py_exception = Error string | Interrupt string

fun is_Exception :: "py_exception \<Rightarrow> bool" where
  "is_Exception (Error m) = True"
| "is_Exception (Interrupt m) = False"

fun message :: "py_exception \<Rightarrow> string" where
  "message (Error m) = m"
| "message (Interrupt m) = m"

datatype call =
  Launch
| New_context
| New_page
| Goto string
| Evaluate string
| Reload
| Expect_visible string
| Expect_not_visible string
| Press string
| Screenshot string
| Print string
| Close

type_synonym outcomes = "nat \<Rightarrow> py_exception option"

text \<open>
  A sequence of statements, each one call: the calls made so far are the trace; a call
  that raises ends the sequence with its exception.
\<close>

fun exec_calls :: "outcomes \<Rightarrow> call list \<Rightarrow> call list \<Rightarrow> py_exception option \<times> call list" where
  "exec_calls env [] tr = (None, tr)"
| "exec_calls env (c # cs) tr =
     (case env (length tr) of
        Some x \<Rightarrow> (Some x, tr @ [c])
      | None \<Rightarrow> exec_calls env cs (tr @ [c]))"

text \<open>
  \<^verbatim>\<open>try: body  except Exception as e: handler(e)  finally: final\<close>. The handler runs
  when the body raised an instance of \<^verbatim>\<open>Exception\<close>; the final block runs in every case;
  an exception of the final block replaces a pending one.
\<close>

definition try_except_finally ::
    "outcomes \<Rightarrow> call list \<Rightarrow> (py_exception \<Rightarrow> call list) \<Rightarrow> call list \<Rightarrow> call list
     \<Rightarrow> py_exception option \<times> call list" where
  "try_except_finally env body handler final tr =
     (let (r1, tr1) = exec_calls env body tr;
          (r2, tr2) = (case r1 of
                         None \<Rightarrow> (None, tr1)
                       | Some x \<Rightarrow> if is_Exception x then exec_calls env (handler x) tr1
                                   else (Some x, tr1));
          (r3, tr3) = exec_calls env final tr2
      in (case r3 of Some y \<Rightarrow> Some y | None \<Rightarrow> r2, tr3))"

text \<open>The three statements before the \<^verbatim>\<open>try\<close>.\<close>

definition setup_calls :: "call list" where
  "setup_calls = [Launch, New_context, New_page]"

text \<open>The frame shared by the two scripts.\<close>

definition script ::
    "call list \<Rightarrow> string \<Rightarrow> outcomes \<Rightarrow> py_exception option \<times> call list" where
  "script body error_png env =
     (case exec_calls env setup_calls [] of
        (Some x, tr) \<Rightarrow> (Some x, tr)
      | (None, tr) \<Rightarrow>
          try_except_finally env body
            (\<lambda>e. [Print (''An error occurred: '' @ message e), Screenshot error_png])
            [Close] tr)"

definition hotkeys_body :: "call list" where
  "hotkeys_body =
     [Goto ''http://localhost:5173'',
      Evaluate ''() => localStorage.clear()'',
      Reload,
      Expect_visible ''text=Select Image Folder'',
      Press ''F1'',
      Expect_visible ''heading=Keyboard Shortcuts'',
      Screenshot ''jules-scratch/verification/hotkey_help_modal.png'',
      Print ''Hotkey Help modal opened successfully.'',
      Press ''Escape'',
      Expect_not_visible ''heading=Keyboard Shortcuts'',
      Print ''Hotkey Help modal closed successfully.'',
      Press ''Control+K'',
      Expect_visible ''placeholder=Type a command or search...'',
      Screenshot ''jules-scratch/verification/command_palette.png'',
      Print ''Command Palette opened successfully.'',
      Press ''Escape'',
      Expect_not_visible ''placeholder=Type a command or search...'',
      Print ''Command Palette closed successfully.'']"

definition hotkeys_fix_body :: "call list" where
  "hotkeys_fix_body =
     [Goto ''http://localhost:5173'',
      Expect_visible ''header'',
      Press ''F1'',
      Expect_visible ''[data-testid=hotkey-help-modal]'',
      Screenshot ''jules-scratch/verification/hotkey-help-visible.png'']"

text \<open>\<^verbatim>\<open>run_verification\<close> of verify\_hotkeys.py.\<close>

definition run_verification :: "outcomes \<Rightarrow> py_exception option \<times> call list" where
  "run_verification env = script hotkeys_body ''jules-scratch/verification/error.png'' env"

text \<open>\<^verbatim>\<open>run\<close> of verify\_hotkeys\_fix.py.\<close>

definition run :: "outcomes \<Rightarrow> py_exception option \<times> call list" where
  "run env = script hotkeys_fix_body ''jules-scratch/verification/error-hotkey-fix.png'' env"

section \<open>Auxiliary notions\<close>

text \<open>A timer whose event carries a given directory id.\<close>

definition for_dir :: "directory_id \<Rightarrow> timer \<Rightarrow> bool" where
  "for_dir d t = (detail_dir (ev_detail (task t)) = d)"

text \<open>
  The events of a directory id that a window has dispatched, followed by those its
  pending timers will dispatch, in firing order.
\<close>

definition pending :: "directory_id \<Rightarrow> window \<Rightarrow> custom_event list" where
  "pending d w = events_for d (dispatched w) @ events_for d (map task (timers w))"

subsection \<open>Concrete runs\<close>

text \<open>Two clocks: one that stands still during a call, one that advances at every reading.\<close>

definition demo_clock :: "nat \<Rightarrow> nat" where
  "demo_clock j = 1700000000000"

definition later_clock :: "nat \<Rightarrow> nat" where
  "later_clock j = 1700000000500 + j"

text \<open>
  The run of the script: the application subscribes to batches and completions, requests
  one scan of the folder its dialog returned, and the three timers fire.
\<close>

definition demo_request :: scan_request where
  "demo_request = \<lparr>directoryId = ''dir-1'', path = ''/__tests__/fixtures/images''\<rparr>"

definition demo_run :: "action list" where
  "demo_run = [Subscribe_batch 0, Subscribe_complete 1,
               Stream demo_request demo_clock, Tick, Tick, Tick]"

text \<open>A second request, for another directory.\<close>

definition other_request :: scan_request where
  "other_request = \<lparr>directoryId = ''dir-2'', path = ''/elsewhere''\<rparr>"

text \<open>
  The window of the script's scenario before the scan is requested: the application has
  subscribed one callback to the batches and one to the completions.
\<close>

definition listening :: "nat \<Rightarrow> nat \<Rightarrow> window" where
  "listening cb_batch cb_complete =
     perform (Subscribe_complete cb_complete) (perform (Subscribe_batch cb_batch) init)"

text \<open>The outcomes under which the three calls before the \<^verbatim>\<open>try\<close> return.\<close>

definition setup_ok :: "outcomes \<Rightarrow> bool" where
  "setup_ok env = (env 0 = None \<and> env 1 = None \<and> env 2 = None)"

text \<open>
  Four behaviours of the environment: creating the page fails; only the first navigation
  fails (no server is listening); the navigation fails and then the screenshot of the
  handler fails too; the navigation fails and then the print of the handler fails.
\<close>

definition new_page_fails :: outcomes where
  "new_page_fails = (\<lambda>k. if k = 2 then Some (Error ''Target closed'') else None)"

definition goto_fails :: outcomes where
  "goto_fails = (\<lambda>k. if k = 3 then Some (Error ''net::ERR_CONNECTION_REFUSED'') else None)"

definition goto_and_error_screenshot_fail :: outcomes where
  "goto_and_error_screenshot_fail =
     (\<lambda>k. if k = 3 then Some (Error ''net::ERR_CONNECTION_REFUSED'')
          else if k = 5 then Some (Error ''Target closed'') else None)"

definition goto_and_print_fail :: outcomes where
  "goto_and_print_fail =
     (\<lambda>k. if k = 3 then Some (Error ''net::ERR_CONNECTION_REFUSED'')
          else if k = 4 then Some (Error ''[Errno 32] Broken pipe'') else None)"

section \<open>Invariants of the page\<close>

text \<open>
  In a window reached by a run, every registered handler and every handler in the
  delivery log was drawn from the counter, every delivery carries the detail of the event
  at its position in the dispatch log, and no handler is registered twice.
\<close>

definition wf_window :: "window \<Rightarrow> bool" where
  "wf_window w =
     ((\<forall>l\<in>set (listeners w). l_handler l < next_handler w)
      \<and> (\<forall>x\<in>set (delivered w). d_handler x < next_handler w \<and> d_seq x < length (dispatched w)
            \<and> d_detail x = ev_detail (dispatched w ! d_seq x))
      \<and> distinct (map l_handler (listeners w)))"

text \<open>A handler that was drawn from the counter and is not registered.\<close>

definition silent :: "nat \<Rightarrow> window \<Rightarrow> bool" where
  "silent h w = (h < next_handler w \<and> (\<forall>l\<in>set (listeners w). l_handler l \<noteq> h))"

text \<open>A handler that was drawn from the counter and is registered for one type at most.\<close>

definition owned :: "string \<Rightarrow> nat \<Rightarrow> window \<Rightarrow> bool" where
  "owned ty h w = (h < next_handler w \<and> (\<forall>l\<in>set (listeners w). l_handler l = h \<longrightarrow> l_type l = ty))"

text \<open>What a step does to the listeners, the counter and the two logs.\<close>

datatype effect =
  Quiet
| Added listener
| Counted
| Removed string nat
| Dispatched custom_event

fun effect_of :: "window \<Rightarrow> effect \<Rightarrow> window \<Rightarrow> bool" where
  "effect_of w Quiet w' =
     (listeners w' = listeners w \<and> next_handler w' = next_handler w
      \<and> dispatched w' = dispatched w \<and> delivered w' = delivered w)"
| "effect_of w (Added l) w' =
     (listeners w' = listeners w @ [l] \<and> l_handler l = next_handler w
      \<and> next_handler w' = Suc (next_handler w)
      \<and> dispatched w' = dispatched w \<and> delivered w' = delivered w)"
| "effect_of w Counted w' =
     (listeners w' = listeners w \<and> next_handler w' = Suc (next_handler w)
      \<and> dispatched w' = dispatched w \<and> delivered w' = delivered w)"
| "effect_of w (Removed ty h) w' =
     (listeners w' = filter (\<lambda>l. \<not> registered ty h l) (listeners w)
      \<and> next_handler w' = next_handler w
      \<and> dispatched w' = dispatched w \<and> delivered w' = delivered w)"
| "effect_of w (Dispatched e) w' =
     (listeners w' = listeners w \<and> next_handler w' = next_handler w
      \<and> dispatched w' = dispatched w @ [e]
      \<and> delivered w' = delivered w @
           map (invoke (length (dispatched w)) e)
               (filter (\<lambda>l. l_type l = ev_type e) (listeners w)))"

text \<open>
  What a handler registered for one type should have received since a position of the
  dispatch log: the positions of the events of that type from there on, and the delivery
  of the event at a position to the handler.
\<close>

definition receipt :: "nat \<Rightarrow> nat \<Rightarrow> window \<Rightarrow> nat \<Rightarrow> delivery" where
  "receipt h cb w i =
     \<lparr>d_seq = i, d_handler = h, d_callback = cb, d_detail = ev_detail (dispatched w ! i)\<rparr>"

definition heard :: "string \<Rightarrow> nat \<Rightarrow> window \<Rightarrow> nat list" where
  "heard ty n w = filter (\<lambda>i. ev_type (dispatched w ! i) = ty) [n..<length (dispatched w)]"

text \<open>
  A handler that is registered for a type and has received, since a position of the
  dispatch log, each event of that type once, in order, and nothing else.
\<close>

definition served :: "string \<Rightarrow> nat \<Rightarrow> nat \<Rightarrow> nat \<Rightarrow> window \<Rightarrow> bool" where
  "served ty h cb n w =
     (\<lparr>l_type = ty, l_handler = h, l_callback = cb\<rparr> \<in> set (listeners w)
      \<and> n \<le> length (dispatched w)
      \<and> deliveries_to h w = map (receipt h cb w) (heard ty n w))"

text \<open>The details a handler was called with for one directory id, in the order of the calls.\<close>

definition details_to :: "nat \<Rightarrow> directory_id \<Rightarrow> window \<Rightarrow> detail list" where
  "details_to h d w = filter (\<lambda>x. detail_dir x = d) (map d_detail (deliveries_to h w))"

text \<open>The detail of a terminal event: of the two payloads, the completion.\<close>

fun terminal_detail :: "detail \<Rightarrow> bool" where
  "terminal_detail (Batch_detail d fs) = False"
| "terminal_detail (Complete_detail d n) = True"

text \<open>
  Two runs in which the application requests the directory of the script twice: while the
  first scan is still running, and again after the first scan has completed.
\<close>

definition twice_run :: "action list" where
  "twice_run = [Subscribe_batch 0, Subscribe_complete 1,
                Stream demo_request demo_clock, Stream demo_request later_clock,
                Tick, Tick, Tick, Tick, Tick, Tick]"

definition rescan_run :: "action list" where
  "rescan_run = [Subscribe_batch 0, Subscribe_complete 1,
                 Stream demo_request demo_clock, Tick, Tick, Tick,
                 Stream demo_request later_clock, Tick, Tick, Tick]"

text \<open>
  A run in which a first batch is dispatched before a second subscriber arrives, and its
  continuation, in which the next two timers fire.
\<close>

definition early_run :: "action list" where
  "early_run = [Subscribe_batch 3, Stream demo_request demo_clock, Tick]"

definition late_run :: "action list" where
  "late_run = [Tick, Tick]"

text \<open>The second subscriber of that run, and the window after it has unsubscribed.\<close>

definition subscribed_late :: "unsubscribe option \<times> window" where
  "subscribed_late = onDirectoryScanBatch 7 (steps early_run init)"

definition unsubscribed :: window where
  "unsubscribed = perform (Call (fst subscribed_late)) (snd subscribed_late)"

section \<open>Lemmas about the timer queue and the event log\<close>

lemma steps_append: "steps (as @ bs) w = steps bs (steps as w)"
  by (induction as arbitrary: w) simp_all

lemma stream_ids_append: "stream_ids (as @ bs) = stream_ids as @ stream_ids bs"
  by (induction as rule: stream_ids.induct) simp_all

lemma scans_of_append: "scans_of d (as @ bs) = scans_of d as @ scans_of d bs"
  by (induction d as rule: scans_of.induct) simp_all

lemma scans_of_fresh: "d \<notin> set (stream_ids as) \<Longrightarrow> scans_of d as = []"
  by (induction d as rule: scans_of.induct) auto

lemma scans_of_once:
  "count_list (stream_ids as) d \<le> 1 \<Longrightarrow>
     scans_of d as = [] \<or> (\<exists>now. scans_of d as = scan_events d now)"
  by (induction d as rule: scans_of.induct)
     (auto simp: scans_of_fresh count_list_0_iff split: if_splits)

lemma scans_of_requested:
  "d \<in> set (stream_ids as) \<Longrightarrow> scans_of d as \<noteq> []"
  by (induction d as rule: scans_of.induct) (auto simp: scan_events_def)

lemma enqueue_split:
  "\<exists>xs ys. ts = xs @ ys \<and> enqueue t ts = xs @ t # ys \<and> (\<forall>x\<in>set xs. due x \<le> due t)"
proof (induction ts)
  case Nil
  then show ?case by simp
next
  case (Cons u us)
  show ?case
  proof (cases "due t < due u")
    case True
    then have "u # us = [] @ (u # us) \<and> enqueue t (u # us) = [] @ t # (u # us)
               \<and> (\<forall>x\<in>set []. due x \<le> due t)" by simp
    then show ?thesis by blast
  next
    case False
    from Cons.IH obtain xs ys where
      h: "us = xs @ ys" "enqueue t us = xs @ t # ys" "\<forall>x\<in>set xs. due x \<le> due t" by blast
    with False have "u # us = (u # xs) @ ys \<and> enqueue t (u # us) = (u # xs) @ t # ys
               \<and> (\<forall>x\<in>set (u # xs). due x \<le> due t)" by simp
    then show ?thesis by blast
  qed
qed

lemma enqueue_past:
  "\<forall>x\<in>set xs. due x \<le> due t \<Longrightarrow> enqueue t (xs @ ys) = xs @ enqueue t ys"
  by (induction xs) auto

lemma filter_enqueue_other: "\<not> P t \<Longrightarrow> filter P (enqueue t ts) = filter P ts"
  by (induction ts) auto

lemma filter_enqueue3:
  assumes none: "filter P ts = []"
    and P: "P t1" "P t2" "P t3"
    and le: "due t1 \<le> due t2" "due t2 \<le> due t3"
  shows "filter P (enqueue t3 (enqueue t2 (enqueue t1 ts))) = [t1, t2, t3]"
proof -
  obtain xs ys where 1: "ts = xs @ ys" "enqueue t1 ts = xs @ t1 # ys"
      "\<forall>x\<in>set xs. due x \<le> due t1"
    using enqueue_split by blast
  obtain xs' ys' where 2: "ys = xs' @ ys'" "enqueue t2 ys = xs' @ t2 # ys'"
      "\<forall>x\<in>set xs'. due x \<le> due t2"
    using enqueue_split by blast
  obtain xs'' ys'' where 3: "ys' = xs'' @ ys''" "enqueue t3 ys' = xs'' @ t3 # ys''"
    using enqueue_split by blast
  have a: "\<forall>x\<in>set (xs @ [t1]). due x \<le> due t2" using 1(3) le(1) by auto
  have e2: "enqueue t2 (enqueue t1 ts) = (xs @ [t1]) @ xs' @ t2 # ys'"
    using enqueue_past [OF a, of ys] 1(2) 2(2) by simp
  have b: "\<forall>x\<in>set ((xs @ [t1]) @ xs' @ [t2]). due x \<le> due t3"
    using a 2(3) le(2) by auto
  have e3: "enqueue t3 (enqueue t2 (enqueue t1 ts)) = ((xs @ [t1]) @ xs' @ [t2]) @ xs'' @ t3 # ys''"
    using enqueue_past [OF b, of ys'] e2 3(2) by simp
  have "filter P xs = []" "filter P xs' = []" "filter P xs'' = []" "filter P ys'' = []"
    using none 1(1) 2(1) 3(1) by simp_all
  then show ?thesis using e3 P by simp
qed

lemma events_for_tasks: "events_for d (map task ts) = map task (filter (for_dir d) ts)"
  by (simp add: events_for_def filter_map o_def for_dir_def [abs_def])

lemma pending_tick: "pending d (tick w) = pending d w"
  by (simp add: pending_def tick_def dispatchEvent_def events_for_def split: list.split)

lemma pending_stream_other:
  "directoryId req \<noteq> d \<Longrightarrow> pending d (snd (streamDirectoryFiles req now w)) = pending d w"
  by (simp add: pending_def streamDirectoryFiles_def setTimeout_def Let_def events_for_tasks
      filter_enqueue_other for_dir_def batch_event_def complete_event_def)

lemma pending_stream_fresh:
  assumes "pending d w = []" and "directoryId req = d"
  shows "pending d (snd (streamDirectoryFiles req now w)) = scan_events d now"
proof -
  have none: "filter (for_dir d) (timers w) = []" and disp: "events_for d (dispatched w) = []"
    using assms(1) by (simp_all add: pending_def events_for_tasks)
  show ?thesis
    using disp assms(2)
    by (simp add: pending_def streamDirectoryFiles_def setTimeout_def Let_def events_for_tasks
        filter_enqueue3 [OF none] for_dir_def batch_event_def complete_event_def scan_events_def)
qed

lemma pending_perform_other:
  "(\<And>req now. a \<noteq> Stream req now) \<Longrightarrow> pending d (perform a w) = pending d w"
proof (cases a)
  case (Call u)
  show ?thesis
  proof (cases u)
    case None
    with Call show ?thesis by simp
  next
    case (Some x)
    with Call show ?thesis by (cases x) (simp add: pending_def removeEventListener_def)
  qed
next
  case Tick
  then show ?thesis by (simp add: pending_tick)
qed (auto simp: pending_def onDirectoryScanBatch_def onDirectoryScanComplete_def
      onDirectoryScanError_def updateAllowedPaths_def subscribe_def addEventListener_def Let_def)

lemma pending_steps:
  "count_list (stream_ids as) d \<le> 1 \<Longrightarrow> pending d (steps as init) = scans_of d as"
proof (induction as rule: rev_induct)
  case Nil
  then show ?case by (simp add: pending_def init_def events_for_def)
next
  case (snoc a as)
  from snoc.prems have sum: "count_list (stream_ids as) d + count_list (stream_ids [a]) d \<le> 1"
    by (simp add: stream_ids_append)
  then have IH: "pending d (steps as init) = scans_of d as" using snoc.IH by simp
  show ?case
  proof (cases "\<exists>req now. a = Stream req now")
    case True
    then obtain req now where Stream: "a = Stream req now" by blast
    show ?thesis
    proof (cases "directoryId req = d")
      case True
      with sum Stream have "count_list (stream_ids as) d = 0" by simp
      then have "scans_of d as = []" by (simp add: scans_of_fresh count_list_0_iff)
      with IH True Stream show ?thesis
        by (simp add: steps_append scans_of_append pending_stream_fresh)
    next
      case False
      with IH Stream show ?thesis
        by (simp add: steps_append scans_of_append pending_stream_other)
    qed
  next
    case False
    then have "scans_of d [a] = []" by (cases a) simp_all
    with False IH show ?thesis
      by (simp add: steps_append scans_of_append pending_perform_other)
  qed
qed

lemma run_timers_steps: "run_timers w = steps (replicate (length (timers w)) Tick) w"
proof (induction w rule: run_timers.induct)
  case (1 w)
  show ?case
  proof (cases "timers w")
    case Nil
    then show ?thesis by (simp add: run_timers.simps [of w])
  next
    case (Cons t ts)
    then have "timers (tick w) = ts"
      by (simp add: tick_def dispatchEvent_def)
    with Cons 1 show ?thesis by (simp add: run_timers.simps [of w])
  qed
qed

lemma timers_run_timers: "timers (run_timers w) = []"
proof (induction w rule: run_timers.induct)
  case (1 w)
  then show ?case by (cases "timers w = []") (simp_all add: run_timers.simps [of w])
qed

lemma stream_ids_ticks: "stream_ids (replicate n Tick) = []"
  by (induction n) simp_all

lemma is_terminal_simps [simp]:
  "is_terminal (batch_event d fs) = False"
  "is_terminal (complete_event d n) = True"
  "is_batch (batch_event d fs) = True"
  "is_batch (complete_event d n) = False"
  "is_error (batch_event d fs) = False"
  "is_error (complete_event d n) = False"
  by (simp_all add: is_terminal_def is_batch_def is_error_def batch_event_def complete_event_def)

lemma ev_detail_simps [simp]:
  "ev_detail (batch_event d fs) = Batch_detail d fs"
  "ev_detail (complete_event d n) = Complete_detail d n"
  by (simp_all add: batch_event_def complete_event_def)

lemma prefix_scan_events:
  "prefix es (scan_events d now) \<Longrightarrow>
     es = [] \<or> es = [batch_event d (files1 now)]
     \<or> es = [batch_event d (files1 now), batch_event d (files2 now)]
     \<or> es = scan_events d now"
  by (auto simp: scan_events_def prefix_Cons)

lemma dispatched_prefix:
  assumes "count_list (stream_ids as) d \<le> 1"
  shows "prefix (events_for d (dispatched (steps as init))) (scans_of d as)"
  unfolding pending_steps [OF assms, symmetric] pending_def by simp

lemma dispatched_shape:
  assumes "count_list (stream_ids as) d \<le> 1"
  shows "\<exists>now. prefix (events_for d (dispatched (steps as init))) (scan_events d now)"
  using dispatched_prefix [OF assms] scans_of_once [OF assms] by auto

lemma drained_shape:
  assumes "count_list (stream_ids as) d \<le> 1" and "d \<in> set (stream_ids as)"
  shows "\<exists>now. events_for d (dispatched (run_timers (steps as init))) = scan_events d now"
proof -
  let ?as = "as @ replicate (length (timers (steps as init))) Tick"
  have w: "run_timers (steps as init) = steps ?as init"
    by (simp add: run_timers_steps steps_append)
  have d: "count_list (stream_ids ?as) d \<le> 1"
    using assms(1) by (simp add: stream_ids_append stream_ids_ticks)
  have "pending d (steps ?as init) = scans_of d ?as" by (rule pending_steps [OF d])
  moreover have "timers (steps ?as init) = []" using timers_run_timers [of "steps as init"] w by simp
  moreover have "scans_of d ?as = scans_of d as"
    by (simp add: scans_of_append scans_of_fresh stream_ids_ticks)
  ultimately have "events_for d (dispatched (steps ?as init)) = scans_of d as"
    by (simp add: pending_def events_for_def)
  moreover obtain now where "scans_of d as = scan_events d now"
    using scans_of_once [OF assms(1)] scans_of_requested [OF assms(2)] by blast
  ultimately show ?thesis using w by auto
qed

lemma length_files [simp]: "length (files1 now) = 50" "length (files2 now) = 50"
  by (simp_all add: files1_def files2_def array_from_def)

lemma demo_run_once: "count_list (stream_ids demo_run) ''dir-1'' \<le> 1"
  by (simp add: demo_run_def demo_request_def)

lemma demo_run_requested: "''dir-1'' \<in> set (stream_ids demo_run)"
  by (simp add: demo_run_def demo_request_def)

lemma demo_run_dispatched:
  "dispatched (steps demo_run init) = scan_events ''dir-1'' demo_clock"
  by (simp add: demo_run_def demo_request_def init_def streamDirectoryFiles_def
      setTimeout_def tick_def dispatchEvent_def onDirectoryScanBatch_def
      onDirectoryScanComplete_def subscribe_def addEventListener_def scan_events_def
      registered_def Let_def)

lemma set_enqueue: "set (enqueue t ts) = insert t (set ts)"
  by (induction ts) auto

lemma length_enqueue: "length (enqueue t ts) = Suc (length ts)"
  by (induction ts) auto

lemma stream_result: "fst (streamDirectoryFiles req now w) = JS_object [(''success'', JS_bool True)]"
  by (simp add: streamDirectoryFiles_def Let_def)

lemma stream_fields:
  "dispatched (snd (streamDirectoryFiles req now w)) = dispatched w"
  "delivered (snd (streamDirectoryFiles req now w)) = delivered w"
  "listeners (snd (streamDirectoryFiles req now w)) = listeners w"
  "clock (snd (streamDirectoryFiles req now w)) = clock w"
  "next_handler (snd (streamDirectoryFiles req now w)) = next_handler w"
  by (simp_all add: streamDirectoryFiles_def Let_def setTimeout_def)

lemma stream_timers:
  "timers (snd (streamDirectoryFiles req now w)) =
     enqueue \<lparr>due = clock w + 500, task = complete_event (directoryId req) 100\<rparr>
       (enqueue \<lparr>due = clock w + 300, task = batch_event (directoryId req) (files2 now)\<rparr>
         (enqueue \<lparr>due = clock w + 100, task = batch_event (directoryId req) (files1 now)\<rparr>
           (timers w)))"
  by (simp add: streamDirectoryFiles_def Let_def setTimeout_def)

lemma stream_timers_idle:
  "timers (snd (streamDirectoryFiles req now (w\<lparr>timers := []\<rparr>))) =
     [\<lparr>due = clock w + 100, task = batch_event (directoryId req) (files1 now)\<rparr>,
      \<lparr>due = clock w + 300, task = batch_event (directoryId req) (files2 now)\<rparr>,
      \<lparr>due = clock w + 500, task = complete_event (directoryId req) 100\<rparr>]"
  by (simp add: stream_timers)

lemma dispatched_run_timers: "dispatched (run_timers w) = dispatched w @ map task (timers w)"
proof (induction w rule: run_timers.induct)
  case (1 w)
  show ?case
  proof (cases "timers w")
    case Nil
    then show ?thesis by (simp add: run_timers.simps [of w])
  next
    case (Cons t ts)
    then have "timers (tick w) = ts" "dispatched (tick w) = dispatched w @ [task t]"
      by (simp_all add: tick_def dispatchEvent_def)
    with Cons 1 show ?thesis by (simp add: run_timers.simps [of w])
  qed
qed

lemma stream_then_run:
  "dispatched (run_timers (snd (streamDirectoryFiles req now (w\<lparr>timers := []\<rparr>)))) =
     dispatched w @ scan_events (directoryId req) now"
  by (simp add: dispatched_run_timers stream_timers_idle stream_fields scan_events_def)

lemma show_nat_values:
  "show_nat 1 = ''1''" "show_nat 50 = ''50''" "show_nat 51 = ''51''" "show_nat 100 = ''100''"
  by code_simp+

lemma names_files1: "map name (files1 now) = map (\<lambda>i. ''file'' @ show_nat i @ ''.png'') [1..<51]"
proof -
  have "[1..<51] = map Suc [0..<50]" by (simp add: map_Suc_upt)
  then show ?thesis by (simp add: files1_def array_from_def o_def)
qed

lemma names_files2: "map name (files2 now) = map (\<lambda>i. ''file'' @ show_nat i @ ''.png'') [51..<101]"
proof -
  have "[51..<101] = map (\<lambda>i. i + 51) [0..<50]" by (simp add: map_add_upt)
  then show ?thesis by (simp add: files2_def array_from_def o_def)
qed

lemma shape_scan_events:
  "map shape (scan_events d now) =
     [(''directory-scan-batch'', Inl (map (\<lambda>i. ''file'' @ show_nat i @ ''.png'') [1..<51])),
      (''directory-scan-batch'', Inl (map (\<lambda>i. ''file'' @ show_nat i @ ''.png'') [51..<101])),
      (''directory-scan-complete'', Inr 100)]"
  by (simp add: scan_events_def shape_def batch_event_def complete_event_def
      names_files1 names_files2)

lemma delays_stream:
  "delays (snd (streamDirectoryFiles req now (w\<lparr>timers := []\<rparr>))) = [100, 300, 500]"
  by (simp add: delays_def stream_timers_idle stream_fields)

lemma no_error_perform:
  assumes "\<forall>e\<in>set (dispatched w) \<union> task ` set (timers w). \<not> is_error e"
  shows "\<forall>e\<in>set (dispatched (perform a w)) \<union> task ` set (timers (perform a w)). \<not> is_error e"
proof (cases a)
  case (Stream req now)
  with assms show ?thesis by (simp add: stream_fields stream_timers set_enqueue)
next
  case (Call u)
  show ?thesis
  proof (cases u)
    case None
    with Call assms show ?thesis by simp
  next
    case (Some x)
    with Call assms show ?thesis by (cases x) (simp add: removeEventListener_def)
  qed
next
  case Tick
  with assms show ?thesis
    by (cases "timers w") (auto simp: tick_def dispatchEvent_def)
qed (use assms in \<open>auto simp: onDirectoryScanBatch_def onDirectoryScanComplete_def
      onDirectoryScanError_def updateAllowedPaths_def subscribe_def addEventListener_def Let_def\<close>)

lemma no_error_steps:
  "\<forall>e\<in>set (dispatched (steps as init)) \<union> task ` set (timers (steps as init)). \<not> is_error e"
proof (induction as rule: rev_induct)
  case Nil
  then show ?case by (simp add: init_def)
next
  case (snoc a as)
  then show ?case using no_error_perform [of "steps as init" a] by (simp add: steps_append)
qed

lemma no_error_dispatched: "filter is_error (dispatched (steps as init)) = []"
  using no_error_steps [of as] by (auto simp: filter_empty_conv)

lemma init_idle: "init\<lparr>timers := []\<rparr> = init"
  by (simp add: init_def)

lemma init_fields [simp]: "dispatched init = []" "delivered init = []" "timers init = []"
  "listeners init = []" "next_handler init = 0" "clock init = 0"
  by (simp_all add: init_def)

lemma listening_window:
  "listening cbb cbc =
     \<lparr>clock = 0,
      listeners = [\<lparr>l_type = ''directory-scan-batch'', l_handler = 0, l_callback = cbb\<rparr>,
                   \<lparr>l_type = ''directory-scan-complete'', l_handler = 1, l_callback = cbc\<rparr>],
      timers = [], next_handler = 2, dispatched = [], delivered = []\<rparr>"
  by (simp add: listening_def onDirectoryScanBatch_def onDirectoryScanComplete_def subscribe_def
      addEventListener_def registered_def init_def Let_def)

lemma scenario_after_A:
  "delivered (tick (perform (Stream req now) (listening cbb cbc))) =
     [\<lparr>d_seq = 0, d_handler = 0, d_callback = cbb,
       d_detail = Batch_detail (directoryId req) (files1 now)\<rparr>]"
  by (simp add: listening_window streamDirectoryFiles_def setTimeout_def Let_def tick_def
      dispatchEvent_def invoke_def batch_event_def complete_event_def)

lemma scenario_after_B:
  "delivered (tick (tick (perform (Stream req now) (listening cbb cbc)))) =
     [\<lparr>d_seq = 0, d_handler = 0, d_callback = cbb,
       d_detail = Batch_detail (directoryId req) (files1 now)\<rparr>,
      \<lparr>d_seq = 1, d_handler = 0, d_callback = cbb,
       d_detail = Batch_detail (directoryId req) (files2 now)\<rparr>]"
  by (simp add: listening_window streamDirectoryFiles_def setTimeout_def Let_def tick_def
      dispatchEvent_def invoke_def batch_event_def complete_event_def)

lemma scenario_after_completion:
  "delivered (tick (tick (tick (perform (Stream req now) (listening cbb cbc))))) =
     [\<lparr>d_seq = 0, d_handler = 0, d_callback = cbb,
       d_detail = Batch_detail (directoryId req) (files1 now)\<rparr>,
      \<lparr>d_seq = 1, d_handler = 0, d_callback = cbb,
       d_detail = Batch_detail (directoryId req) (files2 now)\<rparr>,
      \<lparr>d_seq = 2, d_handler = 1, d_callback = cbc,
       d_detail = Complete_detail (directoryId req) 100\<rparr>]"
  by (simp add: listening_window streamDirectoryFiles_def setTimeout_def Let_def tick_def
      dispatchEvent_def invoke_def batch_event_def complete_event_def)

lemma exec_calls_setup:
  "setup_ok env \<Longrightarrow> exec_calls env setup_calls [] = (None, setup_calls)"
  by (simp add: setup_ok_def setup_calls_def numeral_2_eq_2)

lemma exec_calls_trace:
  "exec_calls env cs tr = (r, tr') \<Longrightarrow> \<exists>ds. tr' = tr @ ds \<and> set ds \<subseteq> set cs"
proof (induction cs arbitrary: tr)
  case Nil
  then show ?case by simp
next
  case (Cons c cs)
  show ?case
  proof (cases "env (length tr)")
    case None
    with Cons.prems have "exec_calls env cs (tr @ [c]) = (r, tr')" by simp
    from Cons.IH [OF this] obtain ds where "tr' = (tr @ [c]) @ ds" "set ds \<subseteq> set cs" by blast
    then have "tr' = tr @ (c # ds) \<and> set (c # ds) \<subseteq> set (c # cs)" by auto
    then show ?thesis by blast
  next
    case (Some x)
    with Cons.prems have "tr' = tr @ [c] \<and> set [c] \<subseteq> set (c # cs)" by auto
    then show ?thesis by blast
  qed
qed

lemma script_body_returns:
  assumes "setup_ok env" and "exec_calls env body setup_calls = (None, tr)"
  shows "script body png env = (env (length tr), tr @ [Close])"
  using assms
  by (simp add: script_def exec_calls_setup try_except_finally_def split: option.splits)

lemma script_body_raises_Exception:
  assumes "setup_ok env" and "exec_calls env body setup_calls = (Some x, tr)"
    and "is_Exception x"
  shows "script body png env =
     (case env (length tr) of
        Some y \<Rightarrow>
          (case env (Suc (length tr)) of Some z \<Rightarrow> Some z | None \<Rightarrow> Some y,
           tr @ [Print (''An error occurred: '' @ message x), Close])
      | None \<Rightarrow>
          (case env (Suc (Suc (length tr))) of Some z \<Rightarrow> Some z | None \<Rightarrow> env (Suc (length tr)),
           tr @ [Print (''An error occurred: '' @ message x), Screenshot png, Close]))"
  using assms
  by (simp add: script_def exec_calls_setup try_except_finally_def split: option.splits)

lemma script_body_raises_other:
  assumes "setup_ok env" and "exec_calls env body setup_calls = (Some x, tr)"
    and "\<not> is_Exception x"
  shows "script body png env =
     (case env (length tr) of Some z \<Rightarrow> Some z | None \<Rightarrow> Some x, tr @ [Close])"
  using assms
  by (simp add: script_def exec_calls_setup try_except_finally_def split: option.splits)

lemma script_closes:
  assumes "setup_ok env" and "Close \<notin> set body"
  shows "last (snd (script body png env)) = Close
    \<and> count_list (snd (script body png env)) Close = 1"
proof -
  obtain r tr where e: "exec_calls env body setup_calls = (r, tr)" by force
  from exec_calls_trace [OF e] assms(2) have n: "count_list tr Close = 0"
    by (auto simp: setup_calls_def count_list_0_iff)
  show ?thesis
  proof (cases r)
    case None
    with e n assms(1) show ?thesis by (simp add: script_body_returns)
  next
    case (Some x)
    with e n assms(1) show ?thesis
      by (cases "is_Exception x")
         (simp_all add: script_body_raises_Exception script_body_raises_other
            split: option.splits)
  qed
qed


lemma exec_calls_all_return:
  "\<forall>k. env k = None \<Longrightarrow> exec_calls env cs tr = (None, tr @ cs)"
  by (induction cs arbitrary: tr) simp_all

lemma no_close_in_bodies: "Close \<notin> set hotkeys_body" "Close \<notin> set hotkeys_fix_body"
  by (simp_all add: hotkeys_body_def hotkeys_fix_body_def)

lemma goto_fails_setup: "setup_ok goto_fails"
  by (simp add: setup_ok_def goto_fails_def)

lemma goto_fails_body:
  "exec_calls goto_fails hotkeys_body setup_calls =
     (Some (Error ''net::ERR_CONNECTION_REFUSED''),
      [Launch, New_context, New_page, Goto ''http://localhost:5173''])"
  by code_simp

lemma subscribe_effect:
  "\<exists>l. effect_of w (Added l) (snd (subscribe ty cb w)) \<or> effect_of w Counted (snd (subscribe ty cb w))"
  by (simp add: subscribe_def Let_def addEventListener_def)

lemma perform_effect: "\<exists>f. effect_of w f (perform a w)"
proof (cases a)
  case (Stream req now)
  then have "effect_of w Quiet (perform a w)" by (simp add: stream_fields)
  then show ?thesis by blast
next
  case (Subscribe_batch cb)
  then show ?thesis
    using subscribe_effect [of w "''directory-scan-batch''" cb]
    by (auto simp only: perform.simps onDirectoryScanBatch_def)
next
  case (Subscribe_complete cb)
  then show ?thesis
    using subscribe_effect [of w "''directory-scan-complete''" cb]
    by (auto simp only: perform.simps onDirectoryScanComplete_def)
next
  case (Subscribe_error cb)
  then have "effect_of w Quiet (perform a w)" by (simp add: onDirectoryScanError_def)
  then show ?thesis by blast
next
  case (Call u)
  show ?thesis
  proof (cases u)
    case None
    with Call have "effect_of w Quiet (perform a w)" by simp
    then show ?thesis by blast
  next
    case (Some x)
    obtain ty h where "x = Unsubscribe ty h" by (cases x)
    with Some Call have "effect_of w (Removed ty h) (perform a w)"
      by (simp add: removeEventListener_def)
    then show ?thesis by blast
  qed
next
  case (Update_allowed_paths ps)
  then have "effect_of w Quiet (perform a w)" by (simp add: updateAllowedPaths_def)
  then show ?thesis by blast
next
  case Tick
  show ?thesis
  proof (cases "timers w")
    case Nil
    with Tick have "effect_of w Quiet (perform a w)" by (simp add: tick_def)
    then show ?thesis by blast
  next
    case (Cons t ts)
    with Tick have "effect_of w (Dispatched (task t)) (perform a w)"
      by (simp add: tick_def dispatchEvent_def)
    then show ?thesis by blast
  qed
next
  case (Elapse n)
  then have "effect_of w Quiet (perform a w)" by simp
  then show ?thesis by blast
qed

lemma wf_effect:
  assumes "wf_window w" and "effect_of w f w'"
  shows "wf_window w'"
proof (cases f)
  case (Dispatched e)
  with assms show ?thesis
    by (auto simp: wf_window_def invoke_def nth_append)
next
  case (Removed ty h)
  with assms show ?thesis
    by (auto simp: wf_window_def distinct_map_filter)
qed (use assms in \<open>auto simp: wf_window_def less_Suc_eq\<close>)

lemma wf_init: "wf_window init"
  by (simp add: wf_window_def init_def)

lemma wf_steps: "wf_window w \<Longrightarrow> wf_window (steps as w)"
proof (induction as arbitrary: w)
  case Nil
  then show ?case by simp
next
  case (Cons a as)
  obtain f where "effect_of w f (perform a w)" using perform_effect by blast
  with Cons.prems have "wf_window (perform a w)" by (rule wf_effect)
  then show ?case using Cons.IH by simp
qed

lemma silent_effect:
  assumes "silent h w" and "effect_of w f w'"
  shows "silent h w' \<and> deliveries_to h w' = deliveries_to h w"
  using assms by (cases f) (auto simp: silent_def deliveries_to_def invoke_def filter_empty_conv)

lemma silent_steps:
  "silent h w \<Longrightarrow> silent h (steps as w) \<and> deliveries_to h (steps as w) = deliveries_to h w"
proof (induction as arbitrary: w)
  case Nil
  then show ?case by simp
next
  case (Cons a as)
  obtain f where "effect_of w f (perform a w)" using perform_effect by blast
  from silent_effect [OF Cons.prems this] Cons.IH [of "perform a w"] show ?case by simp
qed

lemma owned_effect:
  assumes "owned ty h w" and "effect_of w f w'"
  shows "owned ty h w'"
  using assms by (cases f) (auto simp: owned_def)

lemma owned_steps: "owned ty h w \<Longrightarrow> owned ty h (steps as w)"
proof (induction as arbitrary: w)
  case Nil
  then show ?case by simp
next
  case (Cons a as)
  obtain f where "effect_of w f (perform a w)" using perform_effect by blast
  from owned_effect [OF Cons.prems this] Cons.IH [of "perform a w"] show ?case by simp
qed

lemma grows_effect:
  assumes "effect_of w f w'"
  shows "\<exists>es new. dispatched w' = dispatched w @ es \<and> delivered w' = delivered w @ new
           \<and> (\<forall>x\<in>set new. length (dispatched w) \<le> d_seq x)"
  using assms by (cases f) (auto simp: invoke_def)

lemma grows_steps:
  "\<exists>es new. dispatched (steps as w) = dispatched w @ es \<and> delivered (steps as w) = delivered w @ new
           \<and> (\<forall>x\<in>set new. length (dispatched w) \<le> d_seq x)"
proof (induction as arbitrary: w)
  case Nil
  then show ?case by simp
next
  case (Cons a as)
  obtain f where "effect_of w f (perform a w)" using perform_effect by blast
  from grows_effect [OF this] obtain es new where
    1: "dispatched (perform a w) = dispatched w @ es" "delivered (perform a w) = delivered w @ new"
       "\<forall>x\<in>set new. length (dispatched w) \<le> d_seq x" by blast
  from Cons.IH [of "perform a w"] obtain es' new' where
    2: "dispatched (steps as (perform a w)) = dispatched (perform a w) @ es'"
       "delivered (steps as (perform a w)) = delivered (perform a w) @ new'"
       "\<forall>x\<in>set new'. length (dispatched (perform a w)) \<le> d_seq x" by blast
  have "dispatched (steps (a # as) w) = dispatched w @ (es @ es')
      \<and> delivered (steps (a # as) w) = delivered w @ (new @ new')
      \<and> (\<forall>x\<in>set (new @ new'). length (dispatched w) \<le> d_seq x)"
    using 1 2 by auto
  then show ?case by blast
qed

lemma sub_is_subscribe:
  assumes "sub = onDirectoryScanBatch \<or> sub = onDirectoryScanComplete"
  shows "\<exists>ty. sub = subscribe ty"
  using assms by (auto simp: onDirectoryScanBatch_def [abs_def] onDirectoryScanComplete_def [abs_def])

lemma subscribe_fresh:
  assumes "wf_window w"
  shows "fst (subscribe ty cb w) = Some (Unsubscribe ty (next_handler w))"
    and "listeners (snd (subscribe ty cb w)) =
           listeners w @ [\<lparr>l_type = ty, l_handler = next_handler w, l_callback = cb\<rparr>]"
    and "next_handler (snd (subscribe ty cb w)) = Suc (next_handler w)"
    and "dispatched (snd (subscribe ty cb w)) = dispatched w"
    and "delivered (snd (subscribe ty cb w)) = delivered w"
proof -
  have "\<not> list_ex (registered ty (next_handler w)) (listeners w)"
    using assms by (auto simp: wf_window_def list_ex_iff registered_def)
  then show "listeners (snd (subscribe ty cb w)) =
           listeners w @ [\<lparr>l_type = ty, l_handler = next_handler w, l_callback = cb\<rparr>]"
    by (simp add: subscribe_def Let_def addEventListener_def)
qed (simp_all add: subscribe_def Let_def addEventListener_def)

lemma wf_unheard: "wf_window w \<Longrightarrow> deliveries_to (next_handler w) w = []"
  by (auto simp: wf_window_def deliveries_to_def filter_empty_conv)

lemma deliveries_since_dispatch:
  "deliveries_since w (dispatchEvent e w) =
     map (invoke (length (dispatched w)) e) (filter (\<lambda>l. l_type l = ev_type e) (listeners w))"
  by (simp add: deliveries_since_def dispatchEvent_def)

lemmas run_defs =
  streamDirectoryFiles_def setTimeout_def tick_def dispatchEvent_def onDirectoryScanBatch_def
  onDirectoryScanComplete_def subscribe_def addEventListener_def registered_def invoke_def
  batch_event_def complete_event_def Let_def

lemma early_window:
  "steps early_run init =
     \<lparr>clock = 100,
      listeners = [\<lparr>l_type = ''directory-scan-batch'', l_handler = 0, l_callback = 3\<rparr>],
      timers = [\<lparr>due = 300, task = batch_event ''dir-1'' (files2 demo_clock)\<rparr>,
                \<lparr>due = 500, task = complete_event ''dir-1'' 100\<rparr>],
      next_handler = 1,
      dispatched = [batch_event ''dir-1'' (files1 demo_clock)],
      delivered = [\<lparr>d_seq = 0, d_handler = 0, d_callback = 3,
                    d_detail = Batch_detail ''dir-1'' (files1 demo_clock)\<rparr>]\<rparr>"
  by (simp add: early_run_def demo_request_def init_def run_defs)

lemma late_deliveries:
  "map d_seq (deliveries_to 1 (steps late_run (snd (onDirectoryScanBatch 7 (steps early_run init)))))
     = [1]"
  by (simp add: early_window late_run_def deliveries_to_def run_defs)

lemma remove_idempotent:
  "removeEventListener ty h (removeEventListener ty h w) = removeEventListener ty h w"
  by (simp add: removeEventListener_def)

lemma owned_after_subscribe:
  assumes "wf_window w"
  shows "owned ty (next_handler w) (snd (subscribe ty cb w))"
  using assms subscribe_fresh [OF assms, of ty cb] by (auto simp: owned_def wf_window_def)

lemma silent_after_remove:
  assumes "owned ty h w"
  shows "silent h (removeEventListener ty h w)"
  using assms by (auto simp: owned_def silent_def removeEventListener_def registered_def)

lemma others_after_remove:
  assumes "owned ty h w"
  shows "deliveries_since (removeEventListener ty h w) (dispatchEvent e (removeEventListener ty h w))
     = filter (\<lambda>x. d_handler x \<noteq> h) (deliveries_since w (dispatchEvent e w))"
proof -
  have "\<And>l. l \<in> set (listeners w) \<Longrightarrow> (\<not> registered ty h l) = (l_handler l \<noteq> h)"
    using assms by (auto simp: owned_def registered_def)
  then have "filter (\<lambda>l. \<not> registered ty h l) (listeners w)
      = filter (\<lambda>l. l_handler l \<noteq> h) (listeners w)"
    by (simp cong: filter_cong)
  then show ?thesis
    by (simp add: deliveries_since_dispatch removeEventListener_def filter_map o_def invoke_def
        conj_commute)
qed

lemma unsubscribed_window:
  "unsubscribed =
     \<lparr>clock = 100,
      listeners = [\<lparr>l_type = ''directory-scan-batch'', l_handler = 0, l_callback = 3\<rparr>],
      timers = [\<lparr>due = 300, task = batch_event ''dir-1'' (files2 demo_clock)\<rparr>,
                \<lparr>due = 500, task = complete_event ''dir-1'' 100\<rparr>],
      next_handler = 2,
      dispatched = [batch_event ''dir-1'' (files1 demo_clock)],
      delivered = [\<lparr>d_seq = 0, d_handler = 0, d_callback = 3,
                    d_detail = Batch_detail ''dir-1'' (files1 demo_clock)\<rparr>]\<rparr>"
  by (simp add: unsubscribed_def subscribed_late_def early_window onDirectoryScanBatch_def
      subscribe_def addEventListener_def registered_def removeEventListener_def Let_def)

lemma other_handler_still_served:
  "map d_seq (deliveries_to 0 (steps late_run unsubscribed)) = [0, 1]"
  by (simp add: unsubscribed_window late_run_def deliveries_to_def run_defs)

lemma consume_other: "event_id e \<noteq> d \<Longrightarrow> consume c e d = c d"
  by (cases e) (simp_all add: on_batch_def on_complete_def on_error_def)

lemma consume_others: "\<forall>e\<in>set es. event_id e \<noteq> d \<Longrightarrow> foldl consume c es d = c d"
  by (induction es arbitrary: c) (simp_all add: consume_other)

lemma perform_effect_kept:
  assumes "a \<noteq> Call (Some (Unsubscribe ty h))"
  shows "\<exists>f. effect_of w f (perform a w) \<and> f \<noteq> Removed ty h"
proof (cases "\<exists>ty' h'. a = Call (Some (Unsubscribe ty' h'))")
  case True
  then obtain ty' h' where a: "a = Call (Some (Unsubscribe ty' h'))" by blast
  then have "effect_of w (Removed ty' h') (perform a w)" by (simp add: removeEventListener_def)
  moreover have "Removed ty' h' \<noteq> Removed ty h" using a assms by auto
  ultimately show ?thesis by blast
next
  case False
  obtain f where f: "effect_of w f (perform a w)" using perform_effect by blast
  show ?thesis
  proof (cases "f = Removed ty h")
    case neq: False
    with f show ?thesis by blast
  next
    case eq: True
    have "effect_of w Quiet (perform a w) \<or> (\<exists>l. effect_of w (Added l) (perform a w))
        \<or> effect_of w Counted (perform a w) \<or> (\<exists>e. effect_of w (Dispatched e) (perform a w))"
    proof (cases a)
      case (Stream req now)
      then show ?thesis by (simp add: stream_fields)
    next
      case (Subscribe_batch cb)
      then show ?thesis
        using subscribe_effect [of w "''directory-scan-batch''" cb]
        by (auto simp only: perform.simps onDirectoryScanBatch_def)
    next
      case (Subscribe_complete cb)
      then show ?thesis
        using subscribe_effect [of w "''directory-scan-complete''" cb]
        by (auto simp only: perform.simps onDirectoryScanComplete_def)
    next
      case (Subscribe_error cb)
      then show ?thesis by (simp add: onDirectoryScanError_def)
    next
      case (Call u)
      show ?thesis
      proof (cases u)
        case None
        with Call show ?thesis by simp
      next
        case (Some x)
        with Call False show ?thesis by (cases x) auto
      qed
    next
      case (Update_allowed_paths ps)
      then show ?thesis by (simp add: updateAllowedPaths_def)
    next
      case Tick
      then show ?thesis by (cases "timers w") (simp_all add: tick_def dispatchEvent_def)
    next
      case (Elapse n)
      then show ?thesis by simp
    qed
    then show ?thesis by (metis effect.distinct(5,11,15,19))
  qed
qed

lemma filter_unique:
  "distinct (map f xs) \<Longrightarrow> x \<in> set xs \<Longrightarrow> filter (\<lambda>y. f y = f x) xs = [x]"
proof (induction xs)
  case Nil
  then show ?case by simp
next
  case (Cons a xs)
  show ?case
  proof (cases "a = x")
    case True
    with Cons.prems have "filter (\<lambda>y. f y = f x) xs = []"
      by (auto simp: filter_empty_conv image_iff)
    with True show ?thesis by simp
  next
    case False
    with Cons show ?thesis by auto
  qed
qed

lemma filter_at_most_one:
  "distinct (map f xs) \<Longrightarrow> length (filter (\<lambda>y. f y = a) xs) \<le> 1"
proof (induction xs)
  case Nil
  then show ?case by simp
next
  case (Cons x xs)
  show ?case
  proof (cases "f x = a")
    case True
    with Cons.prems have "filter (\<lambda>y. f y = a) xs = []"
      by (auto simp: filter_empty_conv image_iff)
    with True show ?thesis by simp
  next
    case False
    with Cons show ?thesis by simp
  qed
qed


lemma served_effect:
  assumes wf: "wf_window w" and s: "served ty h cb n w"
    and f: "effect_of w f w'" and keep: "f \<noteq> Removed ty h"
  shows "served ty h cb n w'"
proof (cases f)
  case Quiet
  with s f show ?thesis by (simp add: served_def deliveries_to_def heard_def receipt_def)
next
  case (Added l)
  with s f show ?thesis by (simp add: served_def deliveries_to_def heard_def receipt_def)
next
  case Counted
  with s f show ?thesis by (simp add: served_def deliveries_to_def heard_def receipt_def)
next
  case (Removed ty' h')
  with keep have "\<not> registered ty' h' \<lparr>l_type = ty, l_handler = h, l_callback = cb\<rparr>"
    by (auto simp: registered_def)
  with Removed s f show ?thesis
    by (simp add: served_def deliveries_to_def heard_def receipt_def)
next
  case (Dispatched e)
  let ?L = "\<lparr>l_type = ty, l_handler = h, l_callback = cb\<rparr>"
  let ?N = "length (dispatched w)"
  from Dispatched f have d': "dispatched w' = dispatched w @ [e]"
    and l': "listeners w' = listeners w"
    and v': "delivered w' = delivered w @
        map (invoke ?N e) (filter (\<lambda>l. l_type l = ev_type e) (listeners w))"
    by simp_all
  from s have L: "?L \<in> set (listeners w)" and n: "n \<le> ?N"
    and old: "deliveries_to h w = map (receipt h cb w) (heard ty n w)"
    by (simp_all add: served_def)
  have one: "filter (\<lambda>l. l_handler l = l_handler ?L) (listeners w) = [?L]"
    using wf L by (intro filter_unique) (simp_all add: wf_window_def)
  have "filter (\<lambda>x. d_handler x = h)
          (map (invoke ?N e) (filter (\<lambda>l. l_type l = ev_type e) (listeners w)))
        = map (invoke ?N e)
            (filter (\<lambda>l. l_type l = ev_type e) (filter (\<lambda>l. l_handler l = h) (listeners w)))"
    by (simp add: filter_map o_def invoke_def conj_commute)
  also have "\<dots> = (if ev_type e = ty then [invoke ?N e ?L] else [])"
    using one by auto
  finally have new: "deliveries_to h w' =
      deliveries_to h w @ (if ev_type e = ty then [invoke ?N e ?L] else [])"
    by (simp add: deliveries_to_def v')
  have h1: "heard ty n w' = heard ty n w @ (if ev_type e = ty then [?N] else [])"
    using n by (auto simp: heard_def d' nth_append intro: filter_cong)
  have h2: "map (receipt h cb w') (heard ty n w) = map (receipt h cb w) (heard ty n w)"
    by (auto simp: heard_def receipt_def d' nth_append)
  have h3: "receipt h cb w' ?N = invoke ?N e ?L"
    by (simp add: receipt_def invoke_def d')
  have "deliveries_to h w' = map (receipt h cb w') (heard ty n w')"
    using new old h1 h2 h3 by simp
  with L n show ?thesis by (simp add: served_def l' d')
qed

lemma served_steps:
  assumes "wf_window w" and "served ty h cb n w"
    and "Call (Some (Unsubscribe ty h)) \<notin> set as"
  shows "served ty h cb n (steps as w)"
  using assms
proof (induction as arbitrary: w)
  case Nil
  then show ?case by simp
next
  case (Cons a as)
  from Cons.prems(3) have "a \<noteq> Call (Some (Unsubscribe ty h))" by auto
  then obtain f where f: "effect_of w f (perform a w)" "f \<noteq> Removed ty h"
    using perform_effect_kept by blast
  have "served ty h cb n (perform a w)"
    by (rule served_effect [OF Cons.prems(1,2) f])
  moreover have "wf_window (perform a w)" by (rule wf_effect [OF Cons.prems(1) f(1)])
  ultimately show ?case using Cons.IH Cons.prems(3) by simp
qed

lemma served_after_subscribe:
  assumes "wf_window w"
  shows "served ty (next_handler w) cb (length (dispatched w)) (snd (subscribe ty cb w))"
  using subscribe_fresh [OF assms, of ty cb] wf_unheard [OF assms]
  by (simp add: served_def heard_def deliveries_to_def)

lemma served_details:
  assumes "served ty h cb n w"
  shows "map d_detail (deliveries_to h w) =
     map ev_detail (filter (\<lambda>e. ev_type e = ty) (drop n (dispatched w)))"
proof -
  have "drop n (dispatched w) = drop n (map ((!) (dispatched w)) [0..<length (dispatched w)])"
    by (simp only: map_nth)
  then have d: "drop n (dispatched w) = map ((!) (dispatched w)) [n..<length (dispatched w)]"
    by (simp add: drop_map)
  have "map ev_detail (filter (\<lambda>e. ev_type e = ty) (drop n (dispatched w)))
      = map (\<lambda>i. ev_detail (dispatched w ! i)) (heard ty n w)"
    unfolding d by (simp add: heard_def filter_map o_def)
  moreover have "map d_detail (deliveries_to h w) =
      map (\<lambda>i. ev_detail (dispatched w ! i)) (heard ty n w)"
    using assms by (simp add: served_def receipt_def o_def)
  ultimately show ?thesis by simp
qed

lemma details_to_dispatch:
  assumes wf: "wf_window w" and f: "effect_of w (Dispatched e) w'"
  shows "details_to h d w' = details_to h d w
       \<or> (detail_dir (ev_detail e) = d \<and> details_to h d w' = details_to h d w @ [ev_detail e])"
proof -
  let ?ks = "filter (\<lambda>l. l_handler l = h) (filter (\<lambda>l. l_type l = ev_type e) (listeners w))"
  let ?N = "length (dispatched w)"
  have "distinct (map l_handler (filter (\<lambda>l. l_type l = ev_type e) (listeners w)))"
    using wf by (simp add: wf_window_def distinct_map_filter)
  then have "length ?ks \<le> 1" by (rule filter_at_most_one)
  then have ks: "?ks = [] \<or> (\<exists>l. ?ks = [l])"
    by (cases ?ks) (auto simp: length_Suc_conv)
  have new: "deliveries_to h w' = deliveries_to h w @ map (invoke ?N e) ?ks"
    using f by (simp add: deliveries_to_def filter_map o_def invoke_def)
  from ks show ?thesis
  proof
    assume "?ks = []"
    with new show ?thesis by (simp add: details_to_def)
  next
    assume "\<exists>l. ?ks = [l]"
    then obtain l where "?ks = [l]" by blast
    with new have "deliveries_to h w' = deliveries_to h w @ [invoke ?N e l]" by simp
    then show ?thesis by (simp add: details_to_def invoke_def)
  qed
qed

lemma in_order_effect:
  assumes wf: "wf_window w"
    and s: "subseq (details_to h d w) (map ev_detail (events_for d (dispatched w)))"
    and f: "effect_of w f w'"
  shows "subseq (details_to h d w') (map ev_detail (events_for d (dispatched w')))"
proof (cases f)
  case (Dispatched e)
  with f have d': "dispatched w' = dispatched w @ [e]" by simp
  show ?thesis
  proof (cases "detail_dir (ev_detail e) = d")
    case True
    then have r: "map ev_detail (events_for d (dispatched w')) =
        map ev_detail (events_for d (dispatched w)) @ [ev_detail e]"
      by (simp add: d' events_for_def)
    from details_to_dispatch [OF wf f [unfolded Dispatched], of h d]
    show ?thesis
    proof
      assume "details_to h d w' = details_to h d w"
      with s r show ?thesis by (simp add: subseq_rev_drop_many)
    next
      assume "detail_dir (ev_detail e) = d \<and> details_to h d w' = details_to h d w @ [ev_detail e]"
      with s r show ?thesis by simp
    qed
  next
    case False
    then have r: "map ev_detail (events_for d (dispatched w')) =
        map ev_detail (events_for d (dispatched w))"
      by (simp add: d' events_for_def)
    from details_to_dispatch [OF wf f [unfolded Dispatched], of h d] False
    have "details_to h d w' = details_to h d w" by blast
    with s r show ?thesis by simp
  qed
qed (use s f in \<open>simp_all add: details_to_def deliveries_to_def\<close>)

lemma in_order_steps:
  assumes "wf_window w"
    and "subseq (details_to h d w) (map ev_detail (events_for d (dispatched w)))"
  shows "subseq (details_to h d (steps as w)) (map ev_detail (events_for d (dispatched (steps as w))))"
  using assms
proof (induction as arbitrary: w)
  case Nil
  then show ?case by simp
next
  case (Cons a as)
  obtain f where f: "effect_of w f (perform a w)" using perform_effect by blast
  have "wf_window (perform a w)" by (rule wf_effect [OF Cons.prems(1) f])
  moreover have "subseq (details_to h d (perform a w))
      (map ev_detail (events_for d (dispatched (perform a w))))"
    by (rule in_order_effect [OF Cons.prems f])
  ultimately show ?case using Cons.IH by simp
qed

lemma in_order_run:
  "subseq (details_to h d (steps as init)) (map ev_detail (events_for d (dispatched (steps as init))))"
  by (rule in_order_steps [OF wf_init]) (simp add: details_to_def deliveries_to_def)

lemma subseq_of_scan:
  assumes "subseq xs ys"
    and "prefix ys [Batch_detail d f1, Batch_detail d f2, Complete_detail d n]"
  shows "length (filter terminal_detail xs) \<le> 1
    \<and> (\<forall>i. i < length xs \<and> terminal_detail (xs ! i) \<longrightarrow> Suc i = length xs)"
proof -
  have "subseq xs [Batch_detail d f1, Batch_detail d f2, Complete_detail d n]"
    using assms(1) prefix_imp_subseq [OF assms(2)] by (rule subseq_order.trans)
  then have "xs \<in> set (subseqs [Batch_detail d f1, Batch_detail d f2, Complete_detail d n])"
    by (simp only: set_subseqs_eq mem_Collect_eq)
  then have "xs = [] \<or> xs = [Batch_detail d f1] \<or> xs = [Batch_detail d f2]
      \<or> xs = [Complete_detail d n] \<or> xs = [Batch_detail d f1, Batch_detail d f2]
      \<or> xs = [Batch_detail d f1, Complete_detail d n]
      \<or> xs = [Batch_detail d f2, Complete_detail d n]
      \<or> xs = [Batch_detail d f1, Batch_detail d f2, Complete_detail d n]"
    by (auto simp: Let_def)
  then show ?thesis by (auto simp: nth_Cons split: nat.splits)
qed

lemma subscriber_details:
  assumes pre: "d \<notin> set (stream_ids pre)"
    and keep: "Call (Some (Unsubscribe ty (next_handler (steps pre init)))) \<notin> set post"
  shows "details_to (next_handler (steps pre init)) d
           (steps post (snd (subscribe ty cb (steps pre init))))
       = map ev_detail (filter (\<lambda>e. ev_type e = ty)
           (events_for d (dispatched (steps post (snd (subscribe ty cb (steps pre init)))))))"
proof -
  let ?w = "steps pre init"
  let ?h = "next_handler ?w"
  let ?w1 = "snd (subscribe ty cb ?w)"
  let ?w2 = "steps post ?w1"
  let ?n = "length (dispatched ?w)"
  have wf: "wf_window ?w" by (rule wf_steps [OF wf_init])
  have wf1: "wf_window ?w1"
    using wf subscribe_fresh [OF wf, of ty cb] by (auto simp: wf_window_def less_Suc_eq)
  have "served ty ?h cb ?n ?w2"
    by (rule served_steps [OF wf1 served_after_subscribe [OF wf] keep])
  then have det: "map d_detail (deliveries_to ?h ?w2) =
      map ev_detail (filter (\<lambda>e. ev_type e = ty) (drop ?n (dispatched ?w2)))"
    by (rule served_details)
  obtain es where g: "dispatched ?w2 = dispatched ?w1 @ es"
    using grows_steps [of post ?w1] by blast
  then have split: "dispatched ?w2 = dispatched ?w @ es"
    using subscribe_fresh(4) [OF wf, of ty cb] by simp
  have "count_list (stream_ids pre) d \<le> 1" using pre by (simp add: count_list_0_iff)
  then have "pending d ?w = scans_of d pre" by (rule pending_steps)
  then have none: "events_for d (dispatched ?w) = []"
    using pre by (simp add: pending_def scans_of_fresh)
  have "details_to ?h d ?w2
      = map ev_detail (filter (\<lambda>e. detail_dir (ev_detail e) = d)
          (filter (\<lambda>e. ev_type e = ty) es))"
    unfolding details_to_def det split by (simp add: filter_map o_def)
  also have "\<dots> = map ev_detail (filter (\<lambda>e. ev_type e = ty) (events_for d es))"
    by (simp add: events_for_def conj_commute)
  also have "events_for d es = events_for d (dispatched ?w2)"
    using none unfolding split by (simp add: events_for_def)
  finally show ?thesis .
qed

lemma twice_dispatched:
  "dispatched (steps twice_run init) =
     [batch_event ''dir-1'' (files1 demo_clock), batch_event ''dir-1'' (files1 later_clock),
      batch_event ''dir-1'' (files2 demo_clock), batch_event ''dir-1'' (files2 later_clock),
      complete_event ''dir-1'' 100, complete_event ''dir-1'' 100]"
  by (simp add: twice_run_def demo_request_def init_def streamDirectoryFiles_def setTimeout_def
      tick_def dispatchEvent_def onDirectoryScanBatch_def onDirectoryScanComplete_def
      subscribe_def addEventListener_def registered_def Let_def)

lemma twice_details:
  "details_to 0 ''dir-1'' (steps twice_run init) =
     [Batch_detail ''dir-1'' (files1 demo_clock), Batch_detail ''dir-1'' (files1 later_clock),
      Batch_detail ''dir-1'' (files2 demo_clock), Batch_detail ''dir-1'' (files2 later_clock)]"
  by (simp add: twice_run_def demo_request_def init_def details_to_def deliveries_to_def run_defs)

lemma rescan_dispatched:
  "dispatched (steps rescan_run init) =
     [batch_event ''dir-1'' (files1 demo_clock), batch_event ''dir-1'' (files2 demo_clock),
      complete_event ''dir-1'' 100,
      batch_event ''dir-1'' (files1 later_clock), batch_event ''dir-1'' (files2 later_clock),
      complete_event ''dir-1'' 100]"
  by (simp add: rescan_run_def demo_request_def init_def streamDirectoryFiles_def setTimeout_def
      tick_def dispatchEvent_def onDirectoryScanBatch_def onDirectoryScanComplete_def
      subscribe_def addEventListener_def registered_def Let_def)

lemma rescan_delivered:
  "map d_detail (delivered (steps rescan_run init)) =
     [Batch_detail ''dir-1'' (files1 demo_clock), Batch_detail ''dir-1'' (files2 demo_clock),
      Complete_detail ''dir-1'' 100,
      Batch_detail ''dir-1'' (files1 later_clock), Batch_detail ''dir-1'' (files2 later_clock),
      Complete_detail ''dir-1'' 100]"
  by (simp add: rescan_run_def demo_request_def init_def run_defs)

lemma steps_subscribed:
  "steps (pre @ Subscribe_batch cb # post) init =
     steps post (snd (subscribe ''directory-scan-batch'' cb (steps pre init)))"
  "steps (pre @ Subscribe_complete cb # post) init =
     steps post (snd (subscribe ''directory-scan-complete'' cb (steps pre init)))"
  by (simp_all add: steps_append onDirectoryScanBatch_def onDirectoryScanComplete_def)

lemma scan_events_by_type:
  "filter (\<lambda>e. ev_type e = ''directory-scan-batch'') (scan_events d now) =
     [batch_event d (files1 now), batch_event d (files2 now)]"
  "filter (\<lambda>e. ev_type e = ''directory-scan-complete'') (scan_events d now) =
     [complete_event d 100]"
  by (simp_all add: scan_events_def batch_event_def complete_event_def)

lemma demo_run_split:
  "demo_run = [] @ Subscribe_batch 0 #
     [Subscribe_complete 1, Stream demo_request demo_clock, Tick, Tick, Tick]"
  by (simp add: demo_run_def)

lemma run_timers_as_steps:
  "run_timers (steps as init) = steps (as @ replicate (length (timers (steps as init))) Tick) init"
  by (simp add: run_timers_steps steps_append)

lemma demo_run_split_complete:
  "demo_run = [Subscribe_batch 0] @ Subscribe_complete 1 #
     [Stream demo_request demo_clock, Tick, Tick, Tick]"
  by (simp add: demo_run_def)

lemma sub_with_type:
  assumes "sub = onDirectoryScanBatch \<and> ty = ''directory-scan-batch''
      \<or> sub = onDirectoryScanComplete \<and> ty = ''directory-scan-complete''"
  shows "sub = subscribe ty"
  using assms by (auto simp: onDirectoryScanBatch_def [abs_def] onDirectoryScanComplete_def [abs_def])

section \<open>The claims\<close>

subsection \<open>Totals and terminal events\<close>

text \<open>
  Claim C1, as stated: for every scan that ends in a completion carrying \<open>total = T\<close>,
  \<open>T\<close> is the sum of the lengths of the \<open>files\<close> of all batches delivered for its
  directory id. The mock takes the directory id from its caller and keeps no record of
  the ids in use. When the same id is requested by a second scan while the first is
  running, each completion carries 100, while the batches dispatched for the id, and
  those delivered to the subscriber of the batches, hold 200 files.
\<close>

theorem total_is_sum_for_every_scan_counterexample:
  "complete_event ''dir-1'' 100 \<in> set (dispatched (steps twice_run init))
   \<and> sum_list (map (\<lambda>b. batch_size (ev_detail b))
        (events_for ''dir-1'' (dispatched (steps twice_run init)))) = 200
   \<and> sum_list (map batch_size (details_to 0 ''dir-1'' (steps twice_run init))) = 200"
  by (simp add: twice_dispatched twice_details events_for_def)

text \<open>
  Claim C1, amended. For every directory id that at most one scan of a run requests, in
  every run of the page (whatever else the run does, scans of other directories
  included) and at every moment: whenever a completion event carrying \<open>total = T\<close> has
  been dispatched for it, \<open>T\<close> is the sum of the lengths of the \<open>files\<close> of all batch
  events dispatched for it: there are two batches of 50 entries, and \<open>T = 100\<close>. The same
  holds of what is delivered: a handler subscribed to the batches before the directory
  was requested, and not unsubscribed since, has been called with exactly these two
  batches, whose lengths sum to \<open>T\<close>.
\<close>

theorem completion_total_is_sum_of_batches:
  assumes "count_list (stream_ids as) d \<le> 1"
    and "e \<in> set (dispatched (steps as init))"
    and "ev_detail e = Complete_detail d T"
  shows "T = sum_list (map (\<lambda>b. batch_size (ev_detail b))
                 (events_for d (dispatched (steps as init))))
    \<and> map (\<lambda>b. batch_size (ev_detail b)) (filter is_batch (events_for d (dispatched (steps as init))))
        = [50, 50]
    \<and> T = 100
    \<and> (\<forall>pre cb post.
          as = pre @ Subscribe_batch cb # post \<and> d \<notin> set (stream_ids pre)
          \<and> Call (Some (Unsubscribe ''directory-scan-batch'' (next_handler (steps pre init))))
              \<notin> set post
        \<longrightarrow> map batch_size (details_to (next_handler (steps pre init)) d (steps as init))
              = [50, 50]
            \<and> T = sum_list (map batch_size
                    (details_to (next_handler (steps pre init)) d (steps as init))))"
proof -
  let ?es = "events_for d (dispatched (steps as init))"
  obtain now where p: "prefix ?es (scan_events d now)"
    using dispatched_shape [OF assms(1)] by blast
  have in_es: "e \<in> set ?es" using assms(2,3) by (simp add: events_for_def)
  have nb: "\<And>fs. e \<noteq> batch_event d fs" using assms(3) by (auto simp: batch_event_def)
  have es: "?es = scan_events d now"
    using prefix_scan_events [OF p] in_es nb by auto
  then have "e = complete_event d 100" using in_es nb by (auto simp: scan_events_def)
  then have T: "T = 100" using assms(3) by (simp add: complete_event_def)
  have a: "T = sum_list (map (\<lambda>b. batch_size (ev_detail b)) ?es)
      \<and> map (\<lambda>b. batch_size (ev_detail b)) (filter is_batch ?es) = [50, 50] \<and> T = 100"
    using T es by (simp add: scan_events_def)
  have b: "\<forall>pre cb post.
          as = pre @ Subscribe_batch cb # post \<and> d \<notin> set (stream_ids pre)
          \<and> Call (Some (Unsubscribe ''directory-scan-batch'' (next_handler (steps pre init))))
              \<notin> set post
        \<longrightarrow> map batch_size (details_to (next_handler (steps pre init)) d (steps as init))
              = [50, 50]
            \<and> T = sum_list (map batch_size
                    (details_to (next_handler (steps pre init)) d (steps as init)))"
  proof (intro allI impI)
    fix pre cb post
    assume h: "as = pre @ Subscribe_batch cb # post \<and> d \<notin> set (stream_ids pre)
          \<and> Call (Some (Unsubscribe ''directory-scan-batch'' (next_handler (steps pre init))))
              \<notin> set post"
    then have w: "steps as init =
        steps post (snd (subscribe ''directory-scan-batch'' cb (steps pre init)))"
      by (simp add: steps_subscribed)
    from h have "details_to (next_handler (steps pre init)) d (steps as init)
        = map ev_detail (filter (\<lambda>e. ev_type e = ''directory-scan-batch'') ?es)"
      unfolding w by (intro subscriber_details) simp_all
    then have "details_to (next_handler (steps pre init)) d (steps as init)
        = [Batch_detail d (files1 now), Batch_detail d (files2 now)]"
      by (simp add: es scan_events_by_type)
    with T show "map batch_size (details_to (next_handler (steps pre init)) d (steps as init))
              = [50, 50]
            \<and> T = sum_list (map batch_size
                    (details_to (next_handler (steps pre init)) d (steps as init)))"
      by simp
  qed
  from a b show ?thesis by blast
qed

theorem completion_total_is_sum_of_batches_witness:
  "count_list (stream_ids demo_run) ''dir-1'' \<le> 1
   \<and> complete_event ''dir-1'' 100 \<in> set (dispatched (steps demo_run init))
   \<and> ev_detail (complete_event ''dir-1'' 100) = Complete_detail ''dir-1'' 100
   \<and> (100::nat) = sum_list (map (\<lambda>b. batch_size (ev_detail b))
                      (events_for ''dir-1'' (dispatched (steps demo_run init))))
   \<and> (100::nat) = sum_list (map batch_size (details_to 0 ''dir-1'' (steps demo_run init)))"
proof -
  have a: "complete_event ''dir-1'' 100 \<in> set (dispatched (steps demo_run init))"
    by (simp add: demo_run_dispatched scan_events_def)
  have b: "ev_detail (complete_event ''dir-1'' 100) = Complete_detail ''dir-1'' 100"
    by simp
  have c: "''dir-1'' \<notin> set (stream_ids [])" by simp
  have k: "Call (Some (Unsubscribe ''directory-scan-batch'' (next_handler (steps [] init))))
      \<notin> set [Subscribe_complete 1, Stream demo_request demo_clock, Tick, Tick, Tick]"
    by simp
  have n: "next_handler (steps [] init) = 0" by simp
  note t = completion_total_is_sum_of_batches [OF demo_run_once a b]
  from t have "(100::nat) = sum_list (map (\<lambda>b. batch_size (ev_detail b))
                      (events_for ''dir-1'' (dispatched (steps demo_run init))))"
    by blast
  moreover from t demo_run_split c k
  have "(100::nat) = sum_list (map batch_size
      (details_to (next_handler (steps [] init)) ''dir-1'' (steps demo_run init)))"
    by blast
  ultimately show ?thesis using demo_run_once a b n by simp
qed

text \<open>
  Claim C2, as stated: for every directory id exactly one terminal event is delivered,
  after every batch for that id, and nothing for that id after it. When the directory of
  the script is requested again after its scan has completed, two completions are
  dispatched and delivered for its id, and the two batches of the second scan come after
  the first completion.
\<close>

theorem one_terminal_event_for_every_id_counterexample:
  "map is_terminal (events_for ''dir-1'' (dispatched (steps rescan_run init)))
     = [False, False, True, False, False, True]
   \<and> map terminal_detail (map d_detail (delivered (steps rescan_run init)))
     = [False, False, True, False, False, True]
   \<and> map detail_dir (map d_detail (delivered (steps rescan_run init)))
     = [''dir-1'', ''dir-1'', ''dir-1'', ''dir-1'', ''dir-1'', ''dir-1'']"
  by (simp add: rescan_dispatched rescan_delivered events_for_def)

text \<open>
  Claim C2, amended. For every directory id that at most one scan of a run requests, in
  every run of the page and at every moment: at most one terminal event has been
  dispatched for it, and a terminal event is the last event dispatched for it, so it
  comes after every batch and nothing for that id follows it. Every handler is called,
  for that id, with a subsequence of the dispatched events in their order, hence with at
  most one terminal event, and with nothing after it. The event loop always comes to
  rest, and once it has run until no timer is pending, exactly one terminal event has
  been dispatched for the directory id if it was requested, after its two batches, and a
  handler subscribed to the completions before the request, and not unsubscribed since,
  has been called with exactly that one completion.
\<close>

theorem terminal_event_once_and_last:
  assumes "count_list (stream_ids as) d \<le> 1"
  shows "length (filter is_terminal (events_for d (dispatched (steps as init)))) \<le> 1
    \<and> (\<forall>i. i < length (events_for d (dispatched (steps as init)))
            \<and> is_terminal (events_for d (dispatched (steps as init)) ! i)
          \<longrightarrow> Suc i = length (events_for d (dispatched (steps as init))))
    \<and> (d \<in> set (stream_ids as) \<longrightarrow>
          length (filter is_terminal (events_for d (dispatched (run_timers (steps as init))))) = 1
          \<and> is_terminal (last (events_for d (dispatched (run_timers (steps as init)))))
          \<and> length (filter is_batch (events_for d (dispatched (run_timers (steps as init))))) = 2)
    \<and> (\<forall>h. subseq (details_to h d (steps as init))
               (map ev_detail (events_for d (dispatched (steps as init)))))
    \<and> (\<forall>h. length (filter terminal_detail (details_to h d (steps as init))) \<le> 1)
    \<and> (\<forall>h i. i < length (details_to h d (steps as init))
            \<and> terminal_detail (details_to h d (steps as init) ! i)
          \<longrightarrow> Suc i = length (details_to h d (steps as init)))
    \<and> (\<forall>pre cb post.
          as = pre @ Subscribe_complete cb # post \<and> d \<notin> set (stream_ids pre)
          \<and> d \<in> set (stream_ids post)
          \<and> Call (Some (Unsubscribe ''directory-scan-complete'' (next_handler (steps pre init))))
              \<notin> set post
        \<longrightarrow> details_to (next_handler (steps pre init)) d (run_timers (steps as init))
              = [Complete_detail d 100])"
proof -
  obtain now where p: "prefix (events_for d (dispatched (steps as init))) (scan_events d now)"
    using dispatched_shape [OF assms] by blast
  let ?es = "events_for d (dispatched (steps as init))"
  have a: "length (filter is_terminal ?es) \<le> 1"
    using prefix_scan_events [OF p] by (auto simp: scan_events_def)
  have b: "\<forall>i. i < length ?es \<and> is_terminal (?es ! i) \<longrightarrow> Suc i = length ?es"
    using prefix_scan_events [OF p] by (auto simp: scan_events_def nth_Cons split: nat.splits)
  have c: "d \<in> set (stream_ids as) \<longrightarrow>
          length (filter is_terminal (events_for d (dispatched (run_timers (steps as init))))) = 1
          \<and> is_terminal (last (events_for d (dispatched (run_timers (steps as init)))))
          \<and> length (filter is_batch (events_for d (dispatched (run_timers (steps as init))))) = 2"
  proof
    assume "d \<in> set (stream_ids as)"
    then obtain now' where
      "events_for d (dispatched (run_timers (steps as init))) = scan_events d now'"
      using drained_shape [OF assms] by blast
    then show "length (filter is_terminal (events_for d (dispatched (run_timers (steps as init))))) = 1
          \<and> is_terminal (last (events_for d (dispatched (run_timers (steps as init)))))
          \<and> length (filter is_batch (events_for d (dispatched (run_timers (steps as init))))) = 2"
      by (simp add: scan_events_def)
  qed
  have pd: "prefix (map ev_detail ?es)
      [Batch_detail d (files1 now), Batch_detail d (files2 now), Complete_detail d 100]"
    using prefix_scan_events [OF p] by (auto simp: scan_events_def)
  have e: "\<forall>h. subseq (details_to h d (steps as init)) (map ev_detail ?es)"
    by (simp add: in_order_run)
  have f: "\<forall>h. length (filter terminal_detail (details_to h d (steps as init))) \<le> 1"
    using subseq_of_scan [OF in_order_run pd] by blast
  have g: "\<forall>h i. i < length (details_to h d (steps as init))
            \<and> terminal_detail (details_to h d (steps as init) ! i)
          \<longrightarrow> Suc i = length (details_to h d (steps as init))"
    using subseq_of_scan [OF in_order_run pd] by blast
  have k: "\<forall>pre cb post.
          as = pre @ Subscribe_complete cb # post \<and> d \<notin> set (stream_ids pre)
          \<and> d \<in> set (stream_ids post)
          \<and> Call (Some (Unsubscribe ''directory-scan-complete'' (next_handler (steps pre init))))
              \<notin> set post
        \<longrightarrow> details_to (next_handler (steps pre init)) d (run_timers (steps as init))
              = [Complete_detail d 100]"
  proof (intro allI impI)
    fix pre cb post
    assume h: "as = pre @ Subscribe_complete cb # post \<and> d \<notin> set (stream_ids pre)
          \<and> d \<in> set (stream_ids post)
          \<and> Call (Some (Unsubscribe ''directory-scan-complete'' (next_handler (steps pre init))))
              \<notin> set post"
    let ?ticks = "replicate (length (timers (steps as init))) Tick"
    have req: "d \<in> set (stream_ids as)" using h by (auto simp: stream_ids_append)
    obtain now' where all:
      "events_for d (dispatched (run_timers (steps as init))) = scan_events d now'"
      using drained_shape [OF assms req] by blast
    have w: "run_timers (steps as init) =
        steps (post @ ?ticks) (snd (subscribe ''directory-scan-complete'' cb (steps pre init)))"
      using h by (simp add: run_timers_as_steps steps_subscribed [symmetric])
    have keep: "Call (Some (Unsubscribe ''directory-scan-complete'' (next_handler (steps pre init))))
        \<notin> set (post @ ?ticks)"
      using h by auto
    from h have "d \<notin> set (stream_ids pre)" by blast
    from subscriber_details [OF this keep, of cb]
    have "details_to (next_handler (steps pre init)) d (run_timers (steps as init))
        = map ev_detail (filter (\<lambda>e. ev_type e = ''directory-scan-complete'')
            (events_for d (dispatched (run_timers (steps as init)))))"
      unfolding w .
    then show "details_to (next_handler (steps pre init)) d (run_timers (steps as init))
              = [Complete_detail d 100]"
      by (simp add: all scan_events_by_type)
  qed
  from a b c e f g k show ?thesis by blast
qed

theorem terminal_event_once_and_last_witness:
  "count_list (stream_ids demo_run) ''dir-1'' \<le> 1 \<and> ''dir-1'' \<in> set (stream_ids demo_run)
   \<and> length (filter is_terminal (events_for ''dir-1'' (dispatched (steps demo_run init)))) \<le> 1
   \<and> length (filter is_terminal
        (events_for ''dir-1'' (dispatched (run_timers (steps demo_run init))))) = 1
   \<and> details_to 1 ''dir-1'' (run_timers (steps demo_run init)) = [Complete_detail ''dir-1'' 100]"
proof -
  note t = terminal_event_once_and_last [OF demo_run_once]
  have c: "''dir-1'' \<notin> set (stream_ids [Subscribe_batch 0])" by simp
  have r: "''dir-1'' \<in> set (stream_ids [Stream demo_request demo_clock, Tick, Tick, Tick])"
    by (simp add: demo_request_def)
  have n: "next_handler (steps [Subscribe_batch 0] init) = 1"
    by (simp add: onDirectoryScanBatch_def subscribe_def addEventListener_def Let_def)
  have k: "Call (Some (Unsubscribe ''directory-scan-complete''
        (next_handler (steps [Subscribe_batch 0] init))))
      \<notin> set [Stream demo_request demo_clock, Tick, Tick, Tick]"
    by simp
  from t have a: "length (filter is_terminal
      (events_for ''dir-1'' (dispatched (steps demo_run init)))) \<le> 1"
    by blast
  from t demo_run_requested have b: "length (filter is_terminal
        (events_for ''dir-1'' (dispatched (run_timers (steps demo_run init))))) = 1"
    by blast
  from t demo_run_split_complete c r k
  have "details_to (next_handler (steps [Subscribe_batch 0] init)) ''dir-1''
      (run_timers (steps demo_run init)) = [Complete_detail ''dir-1'' 100]"
    by blast
  with a b n demo_run_once demo_run_requested show ?thesis by simp
qed

subsection \<open>What one call of streamDirectoryFiles does\<close>

text \<open>
  Claim C9. For every pair of calls of the mocked \<^verbatim>\<open>streamDirectoryFiles\<close>, whatever
  their arguments, the readings of the clock and the windows they are made in: both
  resolve to \<^verbatim>\<open>{ success: true }\<close>; each sets, on a window with no other pending timer,
  exactly three timers, at 100, 300 and 500 ms, carrying two batches of 50 files named
  \<^verbatim>\<open>file1.png\<close> to \<^verbatim>\<open>file50.png\<close> and \<^verbatim>\<open>file51.png\<close> to \<^verbatim>\<open>file100.png\<close>, in
  ascending order, and then one completion with total 100. Types, names, counts and order
  are the same for both calls; the directory id of every event is the one passed in.
\<close>

theorem stream_events_independent_of_input:
  "fst (streamDirectoryFiles r1 now1 w1) = JS_object [(''success'', JS_bool True)]
   \<and> fst (streamDirectoryFiles r2 now2 w2) = fst (streamDirectoryFiles r1 now1 w1)
   \<and> map task (timers (snd (streamDirectoryFiles r1 now1 (w1\<lparr>timers := []\<rparr>))))
       = scan_events (directoryId r1) now1
   \<and> delays (snd (streamDirectoryFiles r1 now1 (w1\<lparr>timers := []\<rparr>))) = [100, 300, 500]
   \<and> delays (snd (streamDirectoryFiles r2 now2 (w2\<lparr>timers := []\<rparr>)))
       = delays (snd (streamDirectoryFiles r1 now1 (w1\<lparr>timers := []\<rparr>)))
   \<and> map shape (map task (timers (snd (streamDirectoryFiles r1 now1 (w1\<lparr>timers := []\<rparr>)))))
       = [(''directory-scan-batch'', Inl (map (\<lambda>i. ''file'' @ show_nat i @ ''.png'') [1..<51])),
          (''directory-scan-batch'', Inl (map (\<lambda>i. ''file'' @ show_nat i @ ''.png'') [51..<101])),
          (''directory-scan-complete'', Inr 100)]
   \<and> map shape (map task (timers (snd (streamDirectoryFiles r2 now2 (w2\<lparr>timers := []\<rparr>)))))
       = map shape (map task (timers (snd (streamDirectoryFiles r1 now1 (w1\<lparr>timers := []\<rparr>)))))
   \<and> map (\<lambda>e. detail_dir (ev_detail e))
         (map task (timers (snd (streamDirectoryFiles r1 now1 (w1\<lparr>timers := []\<rparr>)))))
       = [directoryId r1, directoryId r1, directoryId r1]
   \<and> show_nat 1 = ''1'' \<and> show_nat 50 = ''50'' \<and> show_nat 51 = ''51'' \<and> show_nat 100 = ''100''"
proof -
  have t: "\<And>r now w. map task (timers (snd (streamDirectoryFiles r now (w\<lparr>timers := []\<rparr>))))
      = scan_events (directoryId r) now"
    by (simp add: stream_timers_idle scan_events_def)
  have d: "\<And>d now. map (\<lambda>e. detail_dir (ev_detail e)) (scan_events d now) = [d, d, d]"
    by (simp add: scan_events_def)
  show ?thesis
    by (simp only: t d stream_result delays_stream shape_scan_events show_nat_values simp_thms)
qed

theorem stream_events_independent_of_input_witness:
  "fst (streamDirectoryFiles other_request later_clock (tick init))
     = fst (streamDirectoryFiles demo_request demo_clock init)
   \<and> map shape (map task (timers (snd (streamDirectoryFiles other_request later_clock
                                        ((tick init)\<lparr>timers := []\<rparr>)))))
       = map shape (map task (timers (snd (streamDirectoryFiles demo_request demo_clock
                                            (init\<lparr>timers := []\<rparr>)))))"
  using stream_events_independent_of_input
    [of demo_request demo_clock init other_request later_clock "tick init"]
  by blast

text \<open>
  Claim C6, as stated: the scan request returns a directory id. It does not: the call
  resolves to the object \<^verbatim>\<open>{ success: true }\<close>, which is not the directory id passed in.
\<close>

theorem stream_returns_a_directory_id_counterexample:
  "fst (streamDirectoryFiles demo_request demo_clock init)
     = JS_object [(''success'', JS_bool True)]
   \<and> fst (streamDirectoryFiles demo_request demo_clock init)
     \<noteq> JS_string (directoryId demo_request)"
  by (simp add: stream_result)

text \<open>
  Claim C6, amended. \<^verbatim>\<open>streamDirectoryFiles\<close> returns a promise resolved to
  \<^verbatim>\<open>{ success: true }\<close> and no directory id (the caller supplies the id, and every event
  echoes it). During the call no event is dispatched and no handler is called: the call
  only adds three timers to the pending ones. The two batches and the completion are
  dispatched afterwards, by the event loop, when those timers fire.
\<close>

theorem stream_returns_before_any_event:
  "fst (streamDirectoryFiles req now w) = JS_object [(''success'', JS_bool True)]
   \<and> dispatched (snd (streamDirectoryFiles req now w)) = dispatched w
   \<and> delivered (snd (streamDirectoryFiles req now w)) = delivered w
   \<and> set (timers (snd (streamDirectoryFiles req now w))) =
       set (timers w) \<union>
       {\<lparr>due = clock w + 100, task = batch_event (directoryId req) (files1 now)\<rparr>,
        \<lparr>due = clock w + 300, task = batch_event (directoryId req) (files2 now)\<rparr>,
        \<lparr>due = clock w + 500, task = complete_event (directoryId req) 100\<rparr>}
   \<and> length (timers (snd (streamDirectoryFiles req now w))) = length (timers w) + 3
   \<and> dispatched (run_timers (snd (streamDirectoryFiles req now (w\<lparr>timers := []\<rparr>))))
       = dispatched w @ scan_events (directoryId req) now"
  by (auto simp: stream_result stream_fields stream_timers set_enqueue length_enqueue
      stream_then_run)

theorem stream_returns_before_any_event_witness:
  "dispatched (snd (streamDirectoryFiles demo_request demo_clock init)) = []
   \<and> dispatched (run_timers (snd (streamDirectoryFiles demo_request demo_clock
                                   (init\<lparr>timers := []\<rparr>))))
       = scan_events ''dir-1'' demo_clock"
  using stream_returns_before_any_event [of demo_request demo_clock init]
  by (simp add: demo_request_def)

text \<open>
  Claim C5, as stated: a request on a path outside the allowed paths yields only a
  scan-error and no batch. In the mock, after \<^verbatim>\<open>updateAllowedPaths\<close> has been called with
  the fixtures directory alone, a request for \<^verbatim>\<open>/elsewhere\<close> is followed by two batch
  events and by no error event.
\<close>

theorem disallowed_path_yields_error_counterexample:
  "length (filter is_batch (events_for ''dir-2''
      (dispatched (run_timers (snd (streamDirectoryFiles other_request demo_clock
         (snd (updateAllowedPaths [''/__tests__/fixtures/images''] init)))))))) = 2
   \<and> filter is_error
      (dispatched (run_timers (snd (streamDirectoryFiles other_request demo_clock
         (snd (updateAllowedPaths [''/__tests__/fixtures/images''] init)))))) = []"
proof -
  have "snd (updateAllowedPaths [''/__tests__/fixtures/images''] init) = init\<lparr>timers := []\<rparr>"
    by (simp add: updateAllowedPaths_def init_idle)
  then show ?thesis
    by (simp add: stream_then_run scan_events_def events_for_def other_request_def)
qed

text \<open>
  Claim C5, amended. The mock has no access control: \<^verbatim>\<open>updateAllowedPaths\<close> ignores its
  argument and leaves the window as it is, no run of the page ever dispatches a
  scan-error event, and every request, whatever its path and whatever paths were
  allowed before, is followed by its two batches and its completion.
\<close>

theorem no_access_control:
  "snd (updateAllowedPaths ps w) = w
   \<and> filter is_error (dispatched (steps as init)) = []
   \<and> dispatched (run_timers (snd (streamDirectoryFiles req now
         (snd (updateAllowedPaths ps (w\<lparr>timers := []\<rparr>))))))
       = dispatched w @ scan_events (directoryId req) now
   \<and> length (filter is_batch (scan_events (directoryId req) now)) = 2
   \<and> filter is_error (scan_events (directoryId req) now) = []"
  by (simp add: updateAllowedPaths_def no_error_dispatched stream_then_run scan_events_def)

theorem no_access_control_witness:
  "filter is_error (dispatched (steps demo_run init)) = []
   \<and> dispatched (run_timers (snd (streamDirectoryFiles other_request demo_clock
         (snd (updateAllowedPaths [''/__tests__/fixtures/images''] (init\<lparr>timers := []\<rparr>))))))
       = scan_events ''dir-2'' demo_clock"
  using no_access_control [of "[''/__tests__/fixtures/images'']" init demo_run other_request
      demo_clock]
  by (simp add: other_request_def)

subsection \<open>The consumer\<close>

text \<open>
  Claim C3. In the scenario of the script, where the consumer has subscribed to batches
  and completions and the mock emits batch A (the 50 files \<^verbatim>\<open>file1.png\<close> to
  \<^verbatim>\<open>file50.png\<close>), then batch B (\<^verbatim>\<open>file51.png\<close> to \<^verbatim>\<open>file100.png\<close>), then the
  completion with total 100, the consumer's accumulated count is 50 after A, 100 after B
  and still 100 after the completion, which finds the count equal to its total and moves
  the directory to Loaded.
\<close>

theorem scenario_counts_50_100_100:
  "accumulated_count (directoryId req)
     (consumer_view cbb cbc (submit (directoryId req) idle_consumer)
        (tick (perform (Stream req now) (listening cbb cbc)))) = 50
   \<and> accumulated_count (directoryId req)
     (consumer_view cbb cbc (submit (directoryId req) idle_consumer)
        (tick (tick (perform (Stream req now) (listening cbb cbc))))) = 100
   \<and> accumulated_count (directoryId req)
     (consumer_view cbb cbc (submit (directoryId req) idle_consumer)
        (tick (tick (tick (perform (Stream req now) (listening cbb cbc)))))) = 100
   \<and> accumulated
       (consumer_view cbb cbc (submit (directoryId req) idle_consumer)
          (tick (tick (tick (perform (Stream req now) (listening cbb cbc))))) (directoryId req))
     = files1 now @ files2 now
   \<and> phase
       (consumer_view cbb cbc (submit (directoryId req) idle_consumer)
          (tick (tick (tick (perform (Stream req now) (listening cbb cbc))))) (directoryId req))
     = Loaded
   \<and> count_agrees
       (consumer_view cbb cbc (submit (directoryId req) idle_consumer)
          (tick (tick (tick (perform (Stream req now) (listening cbb cbc))))) (directoryId req))"
  by (simp add: scenario_after_A scenario_after_B scenario_after_completion consumer_view_def
      accumulated_count_def submit_def idle_consumer_def on_batch_def on_complete_def
      del: perform.simps)

theorem scenario_counts_50_100_100_witness:
  "accumulated_count ''dir-1''
     (consumer_view 0 1 (submit ''dir-1'' idle_consumer)
        (tick (perform (Stream demo_request demo_clock) (listening 0 1)))) = 50
   \<and> accumulated_count ''dir-1''
     (consumer_view 0 1 (submit ''dir-1'' idle_consumer)
        (tick (tick (perform (Stream demo_request demo_clock) (listening 0 1))))) = 100
   \<and> accumulated_count ''dir-1''
     (consumer_view 0 1 (submit ''dir-1'' idle_consumer)
        (tick (tick (tick (perform (Stream demo_request demo_clock)
                             (listening 0 1)))))) = 100"
proof -
  have d: "directoryId demo_request = ''dir-1''" by (simp add: demo_request_def)
  show ?thesis
    using scenario_counts_50_100_100 [of demo_request 0 1 demo_clock]
    unfolding d by blast
qed

text \<open>
  Claim C8. For a directory that is idle with nothing accumulated, submitting the request
  and then receiving a completion with \<open>total = 0\<close>, with no batch for that directory in
  between (events of other directories may come in between), moves the consumer to
  Loaded with an accumulated count of 0 that agrees with the total.
\<close>

theorem empty_directory_reaches_loaded:
  assumes "phase (c d) = Idle" and "accumulated (c d) = []"
    and "\<forall>e\<in>set es. event_id e \<noteq> d"
  shows "phase (foldl consume (submit d c) (es @ [Scan_complete d 0]) d) = Loaded
    \<and> accumulated_count d (foldl consume (submit d c) (es @ [Scan_complete d 0])) = 0
    \<and> count_agrees (foldl consume (submit d c) (es @ [Scan_complete d 0]) d)
    \<and> phase (on_complete d 0 (submit d c) d) = Loaded
    \<and> accumulated_count d (on_complete d 0 (submit d c)) = 0"
proof -
  have "foldl consume (submit d c) es d = submit d c d"
    by (rule consume_others [OF assms(3)])
  with assms(1,2) show ?thesis
    by (simp add: on_complete_def submit_def accumulated_count_def)
qed

theorem empty_directory_reaches_loaded_witness:
  "phase (idle_consumer ''dir-1'') = Idle \<and> accumulated (idle_consumer ''dir-1'') = []
   \<and> phase (foldl consume (submit ''dir-1'' idle_consumer)
        ([Scan_batch ''dir-2'' (files1 demo_clock)] @ [Scan_complete ''dir-1'' 0]) ''dir-1'') = Loaded
   \<and> accumulated_count ''dir-1'' (foldl consume (submit ''dir-1'' idle_consumer)
        ([Scan_batch ''dir-2'' (files1 demo_clock)] @ [Scan_complete ''dir-1'' 0])) = 0
   \<and> phase (on_complete ''dir-1'' 0 (submit ''dir-1'' idle_consumer) ''dir-1'') = Loaded
   \<and> accumulated_count ''dir-1'' (on_complete ''dir-1'' 0 (submit ''dir-1'' idle_consumer)) = 0"
proof -
  have a: "phase (idle_consumer ''dir-1'') = Idle" by (simp add: idle_consumer_def)
  have b: "accumulated (idle_consumer ''dir-1'') = []" by (simp add: idle_consumer_def)
  have c: "\<forall>e\<in>set [Scan_batch ''dir-2'' (files1 demo_clock)]. event_id e \<noteq> ''dir-1''" by simp
  show ?thesis
    using empty_directory_reaches_loaded [of idle_consumer "''dir-1''", OF a b c] a b by blast
qed

subsection \<open>The hotkey scripts\<close>

text \<open>
  Claim C10, as stated: in every run the browser is closed, and on the exception path the
  error screenshot is taken and the exception does not propagate. When
  \<^verbatim>\<open>context.new_page()\<close> raises, which happens before the \<^verbatim>\<open>try\<close>, neither script calls
  \<^verbatim>\<open>browser.close()\<close>, and the exception propagates. When the navigation fails and the
  screenshot of the handler fails as well, the browser is closed, but the exception of the
  screenshot propagates. When the navigation fails and the print of the handler fails,
  no error screenshot is requested, the browser is closed, and the exception of the print
  propagates.
\<close>

theorem browser_closed_on_every_path_counterexample:
  "run_verification new_page_fails =
     (Some (Error ''Target closed''), [Launch, New_context, New_page])
   \<and> Close \<notin> set (snd (run_verification new_page_fails))
   \<and> run new_page_fails = (Some (Error ''Target closed''), [Launch, New_context, New_page])
   \<and> Close \<notin> set (snd (run new_page_fails))
   \<and> run_verification goto_and_error_screenshot_fail =
     (Some (Error ''Target closed''),
      [Launch, New_context, New_page, Goto ''http://localhost:5173'',
       Print ''An error occurred: net::ERR_CONNECTION_REFUSED'',
       Screenshot ''jules-scratch/verification/error.png'', Close])
   \<and> run_verification goto_and_print_fail =
     (Some (Error ''[Errno 32] Broken pipe''),
      [Launch, New_context, New_page, Goto ''http://localhost:5173'',
       Print ''An error occurred: net::ERR_CONNECTION_REFUSED'', Close])"
  by code_simp

text \<open>
  Claim C10, amended. In every run of either script in which the three calls before the
  \<^verbatim>\<open>try\<close> return, \<^verbatim>\<open>browser.close()\<close> is called exactly once, as the last call, on
  every control path. When a call of the \<^verbatim>\<open>try\<close> body raises an instance of
  \<^verbatim>\<open>Exception\<close>, the handler prints the message before the browser is closed; if the
  print returns, the error screenshot is requested next, still before the close, and if
  the screenshot and the close return as well, no exception propagates; if the print
  raises, the screenshot is skipped, the browser is closed and an exception propagates.
  When no call raises, the script makes all calls of the body, then closes, and ends
  normally.
\<close>

theorem browser_closed_once_try_entered:
  assumes "setup_ok env"
  shows "last (snd (run_verification env)) = Close
    \<and> count_list (snd (run_verification env)) Close = 1
    \<and> last (snd (run env)) = Close
    \<and> count_list (snd (run env)) Close = 1
    \<and> (\<forall>x tr. exec_calls env hotkeys_body setup_calls = (Some x, tr) \<and> is_Exception x \<longrightarrow>
          (env (length tr) = None \<longrightarrow>
             snd (run_verification env) =
               tr @ [Print (''An error occurred: '' @ message x),
                     Screenshot ''jules-scratch/verification/error.png'', Close]
             \<and> (env (Suc (length tr)) = None \<and> env (Suc (Suc (length tr))) = None \<longrightarrow>
                  fst (run_verification env) = None))
          \<and> (env (length tr) \<noteq> None \<longrightarrow>
                snd (run_verification env) =
                  tr @ [Print (''An error occurred: '' @ message x), Close]
                \<and> fst (run_verification env) \<noteq> None))
    \<and> (\<forall>x tr. exec_calls env hotkeys_fix_body setup_calls = (Some x, tr) \<and> is_Exception x \<longrightarrow>
          (env (length tr) = None \<longrightarrow>
             snd (run env) =
               tr @ [Print (''An error occurred: '' @ message x),
                     Screenshot ''jules-scratch/verification/error-hotkey-fix.png'', Close]
             \<and> (env (Suc (length tr)) = None \<and> env (Suc (Suc (length tr))) = None \<longrightarrow>
                  fst (run env) = None))
          \<and> (env (length tr) \<noteq> None \<longrightarrow>
                snd (run env) = tr @ [Print (''An error occurred: '' @ message x), Close]
                \<and> fst (run env) \<noteq> None))
    \<and> ((\<forall>k. env k = None) \<longrightarrow>
          run_verification env = (None, setup_calls @ hotkeys_body @ [Close])
          \<and> run env = (None, setup_calls @ hotkeys_fix_body @ [Close]))"
proof -
  have a: "last (snd (run_verification env)) = Close
      \<and> count_list (snd (run_verification env)) Close = 1"
    unfolding run_verification_def by (rule script_closes [OF assms no_close_in_bodies(1)])
  have b: "last (snd (run env)) = Close \<and> count_list (snd (run env)) Close = 1"
    unfolding run_def by (rule script_closes [OF assms no_close_in_bodies(2)])
  have c: "\<forall>x tr. exec_calls env hotkeys_body setup_calls = (Some x, tr) \<and> is_Exception x \<longrightarrow>
          (env (length tr) = None \<longrightarrow>
             snd (run_verification env) =
               tr @ [Print (''An error occurred: '' @ message x),
                     Screenshot ''jules-scratch/verification/error.png'', Close]
             \<and> (env (Suc (length tr)) = None \<and> env (Suc (Suc (length tr))) = None \<longrightarrow>
                  fst (run_verification env) = None))
          \<and> (env (length tr) \<noteq> None \<longrightarrow>
                snd (run_verification env) =
                  tr @ [Print (''An error occurred: '' @ message x), Close]
                \<and> fst (run_verification env) \<noteq> None)"
    by (auto simp: run_verification_def script_body_raises_Exception [OF assms]
        split: option.splits)
  have d: "\<forall>x tr. exec_calls env hotkeys_fix_body setup_calls = (Some x, tr) \<and> is_Exception x \<longrightarrow>
          (env (length tr) = None \<longrightarrow>
             snd (run env) =
               tr @ [Print (''An error occurred: '' @ message x),
                     Screenshot ''jules-scratch/verification/error-hotkey-fix.png'', Close]
             \<and> (env (Suc (length tr)) = None \<and> env (Suc (Suc (length tr))) = None \<longrightarrow>
                  fst (run env) = None))
          \<and> (env (length tr) \<noteq> None \<longrightarrow>
                snd (run env) = tr @ [Print (''An error occurred: '' @ message x), Close]
                \<and> fst (run env) \<noteq> None)"
    by (auto simp: run_def script_body_raises_Exception [OF assms] split: option.splits)
  have e: "(\<forall>k. env k = None) \<longrightarrow>
          run_verification env = (None, setup_calls @ hotkeys_body @ [Close])
          \<and> run env = (None, setup_calls @ hotkeys_fix_body @ [Close])"
  proof
    assume all: "\<forall>k. env k = None"
    have "\<And>body. exec_calls env body setup_calls = (None, setup_calls @ body)"
      by (rule exec_calls_all_return [OF all])
    with all show "run_verification env = (None, setup_calls @ hotkeys_body @ [Close])
          \<and> run env = (None, setup_calls @ hotkeys_fix_body @ [Close])"
      by (simp add: run_verification_def run_def script_body_returns [OF assms])
  qed
  from a b c d e show ?thesis by blast
qed

theorem browser_closed_once_try_entered_witness:
  "setup_ok goto_fails
   \<and> last (snd (run_verification goto_fails)) = Close
   \<and> snd (run_verification goto_fails) =
       [Launch, New_context, New_page, Goto ''http://localhost:5173'',
        Print ''An error occurred: net::ERR_CONNECTION_REFUSED'',
        Screenshot ''jules-scratch/verification/error.png'', Close]
   \<and> fst (run_verification goto_fails) = None"
proof -
  have x: "is_Exception (Error ''net::ERR_CONNECTION_REFUSED'')" by simp
  have n: "goto_fails (length [Launch, New_context, New_page, Goto ''http://localhost:5173''])
      = None
    \<and> goto_fails (Suc (length [Launch, New_context, New_page, Goto ''http://localhost:5173'']))
      = None
    \<and> goto_fails (Suc (Suc (length [Launch, New_context, New_page, Goto ''http://localhost:5173''])))
      = None"
    by (simp add: goto_fails_def)
  from browser_closed_once_try_entered [OF goto_fails_setup] goto_fails_body x n
  have "last (snd (run_verification goto_fails)) = Close"
    and "snd (run_verification goto_fails) =
       [Launch, New_context, New_page, Goto ''http://localhost:5173''] @
       [Print (''An error occurred: '' @ message (Error ''net::ERR_CONNECTION_REFUSED'')),
        Screenshot ''jules-scratch/verification/error.png'', Close]"
    and "fst (run_verification goto_fails) = None"
    by blast+
  then show ?thesis using goto_fails_setup by simp
qed

subsection \<open>Subscriptions\<close>

text \<open>
  Claim C7. \<^verbatim>\<open>onDirectoryScanBatch\<close> and \<^verbatim>\<open>onDirectoryScanComplete\<close> register a new
  handler for their event type and return its unsubscribe function. A subscriber
  registered after some events were dispatched never receives one of them: registration
  delivers nothing, and whatever happens afterwards, every delivery to the new handler is
  the delivery of an event dispatched after the registration; the events dispatched
  before keep their place in the log and every delivery carries the detail of the event
  being dispatched, so nothing is replayed. Each dispatch calls each handler registered
  for the type of the event at that moment, once. As long as its unsubscribe function is
  not called, the subscriber stays registered and has received every event of its type
  dispatched since its registration, each one once and in order, and nothing else.
\<close>

theorem late_subscriber_gets_no_earlier_event:
  assumes "sub = onDirectoryScanBatch \<and> ty = ''directory-scan-batch''
      \<or> sub = onDirectoryScanComplete \<and> ty = ''directory-scan-complete''"
    and "w = steps pre init"
    and "w2 = steps post (snd (sub cb w))"
  shows "fst (sub cb w) = Some (Unsubscribe ty (next_handler w))
    \<and> \<lparr>l_type = ty, l_handler = next_handler w, l_callback = cb\<rparr>
        \<in> set (listeners (snd (sub cb w)))
    \<and> deliveries_to (next_handler w) (snd (sub cb w)) = []
    \<and> (\<forall>x\<in>set (deliveries_to (next_handler w) w2). length (dispatched w) \<le> d_seq x)
    \<and> take (length (dispatched w)) (dispatched w2) = dispatched w
    \<and> (\<forall>x\<in>set (delivered w2).
          d_seq x < length (dispatched w2) \<and> d_detail x = ev_detail (dispatched w2 ! d_seq x))
    \<and> (\<forall>e. map d_handler (deliveries_since w2 (dispatchEvent e w2)) =
             map l_handler (filter (\<lambda>l. l_type l = ev_type e) (listeners w2)))
    \<and> distinct (map l_handler (listeners w2))
    \<and> (Call (fst (sub cb w)) \<notin> set post \<longrightarrow>
          \<lparr>l_type = ty, l_handler = next_handler w, l_callback = cb\<rparr> \<in> set (listeners w2)
          \<and> deliveries_to (next_handler w) w2 =
              map (receipt (next_handler w) cb w2) (heard ty (length (dispatched w)) w2))"
proof -
  have sub: "sub = subscribe ty" by (rule sub_with_type [OF assms(1)])
  let ?h = "next_handler w" and ?w1 = "snd (subscribe ty cb w)"
  have wf: "wf_window w" unfolding assms(2) by (rule wf_steps [OF wf_init])
  have wf1: "wf_window ?w1"
    using wf subscribe_fresh [OF wf, of ty cb] by (auto simp: wf_window_def less_Suc_eq)
  have wf2: "wf_window w2" unfolding assms(3) sub by (rule wf_steps [OF wf1])
  have u: "fst (sub cb w) = Some (Unsubscribe ty ?h)"
    unfolding sub by (rule subscribe_fresh(1) [OF wf])
  have r: "\<lparr>l_type = ty, l_handler = ?h, l_callback = cb\<rparr> \<in> set (listeners (snd (sub cb w)))"
    unfolding sub using subscribe_fresh(2) [OF wf, of ty cb] by simp
  have a: "deliveries_to ?h ?w1 = []"
    using wf_unheard [OF wf] subscribe_fresh(5) [OF wf, of ty cb] by (simp add: deliveries_to_def)
  obtain es new where g: "dispatched w2 = dispatched ?w1 @ es" "delivered w2 = delivered ?w1 @ new"
      "\<forall>x\<in>set new. length (dispatched ?w1) \<le> d_seq x"
    unfolding assms(3) sub using grows_steps [of post ?w1] by blast
  have b: "\<forall>x\<in>set (deliveries_to ?h w2). length (dispatched w) \<le> d_seq x"
  proof
    fix x assume "x \<in> set (deliveries_to ?h w2)"
    then have "x \<in> set (deliveries_to ?h ?w1) \<or> x \<in> set new"
      by (auto simp: deliveries_to_def g(2))
    with a g(3) subscribe_fresh(4) [OF wf, of ty cb] show "length (dispatched w) \<le> d_seq x"
      by auto
  qed
  have c: "take (length (dispatched w)) (dispatched w2) = dispatched w"
    using g(1) subscribe_fresh(4) [OF wf, of ty cb] by simp
  have d: "\<forall>x\<in>set (delivered w2).
          d_seq x < length (dispatched w2) \<and> d_detail x = ev_detail (dispatched w2 ! d_seq x)"
    using wf2 by (simp add: wf_window_def)
  have e: "\<forall>e. map d_handler (deliveries_since w2 (dispatchEvent e w2)) =
             map l_handler (filter (\<lambda>l. l_type l = ev_type e) (listeners w2))"
    by (simp add: deliveries_since_dispatch invoke_def o_def)
  have f: "distinct (map l_handler (listeners w2))" using wf2 by (simp add: wf_window_def)
  have s: "Call (fst (sub cb w)) \<notin> set post \<longrightarrow>
          \<lparr>l_type = ty, l_handler = ?h, l_callback = cb\<rparr> \<in> set (listeners w2)
          \<and> deliveries_to ?h w2 = map (receipt ?h cb w2) (heard ty (length (dispatched w)) w2)"
  proof
    assume "Call (fst (sub cb w)) \<notin> set post"
    then have keep: "Call (Some (Unsubscribe ty ?h)) \<notin> set post" unfolding u .
    have "served ty ?h cb (length (dispatched w)) w2"
      unfolding assms(3) sub
      by (rule served_steps [OF wf1 served_after_subscribe [OF wf] keep])
    then show "\<lparr>l_type = ty, l_handler = ?h, l_callback = cb\<rparr> \<in> set (listeners w2)
          \<and> deliveries_to ?h w2 = map (receipt ?h cb w2) (heard ty (length (dispatched w)) w2)"
      by (simp add: served_def)
  qed
  from u r a b c d e f s show ?thesis unfolding sub by blast
qed

theorem late_subscriber_gets_no_earlier_event_witness:
  "length (dispatched (steps early_run init)) = 1
   \<and> deliveries_to (next_handler (steps early_run init))
        (snd (onDirectoryScanBatch 7 (steps early_run init))) = []
   \<and> take (length (dispatched (steps early_run init)))
        (dispatched (steps late_run (snd (onDirectoryScanBatch 7 (steps early_run init)))))
       = dispatched (steps early_run init)
   \<and> map d_seq (deliveries_to (next_handler (steps early_run init))
        (steps late_run (snd (onDirectoryScanBatch 7 (steps early_run init))))) = [1]
   \<and> deliveries_to (next_handler (steps early_run init))
        (steps late_run (snd (onDirectoryScanBatch 7 (steps early_run init))))
      = map (receipt (next_handler (steps early_run init)) 7
               (steps late_run (snd (onDirectoryScanBatch 7 (steps early_run init)))))
            (heard ''directory-scan-batch'' (length (dispatched (steps early_run init)))
               (steps late_run (snd (onDirectoryScanBatch 7 (steps early_run init)))))"
proof -
  have s: "onDirectoryScanBatch = onDirectoryScanBatch
        \<and> ''directory-scan-batch'' = ''directory-scan-batch''
      \<or> onDirectoryScanBatch = onDirectoryScanComplete
        \<and> ''directory-scan-batch'' = ''directory-scan-complete''"
    by simp
  have a: "length (dispatched (steps early_run init)) = 1" by (simp add: early_window)
  have n: "next_handler (steps early_run init) = 1" by (simp add: early_window)
  have b: "map d_seq (deliveries_to (next_handler (steps early_run init))
        (steps late_run (snd (onDirectoryScanBatch 7 (steps early_run init))))) = [1]"
    unfolding n by (rule late_deliveries)
  have k: "Call (fst (onDirectoryScanBatch 7 (steps early_run init))) \<notin> set late_run"
    by (simp add: late_run_def)
  note t = late_subscriber_gets_no_earlier_event
      [where sub = onDirectoryScanBatch and ty = "''directory-scan-batch''" and cb = 7
         and pre = early_run and post = late_run, OF s refl refl]
  from t have "deliveries_to (next_handler (steps early_run init))
        (snd (onDirectoryScanBatch 7 (steps early_run init))) = []"
    by blast
  moreover from t have "take (length (dispatched (steps early_run init)))
        (dispatched (steps late_run (snd (onDirectoryScanBatch 7 (steps early_run init)))))
       = dispatched (steps early_run init)"
    by blast
  moreover from t k have "deliveries_to (next_handler (steps early_run init))
        (steps late_run (snd (onDirectoryScanBatch 7 (steps early_run init))))
      = map (receipt (next_handler (steps early_run init)) 7
               (steps late_run (snd (onDirectoryScanBatch 7 (steps early_run init)))))
            (heard ''directory-scan-batch'' (length (dispatched (steps early_run init)))
               (steps late_run (snd (onDirectoryScanBatch 7 (steps early_run init)))))"
    by blast
  ultimately show ?thesis using a b by (intro conjI)
qed

text \<open>
  Claim C4, as stated: each of the three subscription operations returns an unsubscribe
  function. \<^verbatim>\<open>onDirectoryScanError\<close> registers nothing and returns \<^verbatim>\<open>undefined\<close>;
  calling what it returned raises a TypeError.
\<close>

theorem error_subscription_returns_unsubscribe_counterexample:
  "fst (onDirectoryScanError 0 init) = None
   \<and> listeners (snd (onDirectoryScanError 0 init)) = []
   \<and> call_unsubscribe (fst (onDirectoryScanError 0 init)) (snd (onDirectoryScanError 0 init))
       = Inl TypeError"
  by (simp add: onDirectoryScanError_def)

text \<open>
  Claim C4, amended. The subscription operations for batches and for completions return
  an unsubscribe function. Calling it never raises, also when it is called again, and a
  second call changes nothing. From the call on, whatever happens afterwards, the
  unsubscribed handler receives no further event, and the very next dispatch already
  calls exactly the handlers it would have called otherwise, except the unsubscribed
  one. The subscription operation for errors is a stub: it registers nothing and returns
  \<^verbatim>\<open>undefined\<close>, which cannot be called.
\<close>

theorem unsubscribe_stops_deliveries:
  assumes "sub = onDirectoryScanBatch \<or> sub = onDirectoryScanComplete"
    and "w = steps pre init"
    and "w2 = steps post (snd (sub cb w))"
    and "w3 = perform (Call (fst (sub cb w))) w2"
  shows "(\<exists>ty. fst (sub cb w) = Some (Unsubscribe ty (next_handler w)))
    \<and> call_unsubscribe (fst (sub cb w)) w2 = Inr w3
    \<and> call_unsubscribe (fst (sub cb w)) w3 = Inr w3
    \<and> (\<forall>later. deliveries_to (next_handler w) (steps later w3) = deliveries_to (next_handler w) w2)
    \<and> (\<forall>e. deliveries_since w3 (dispatchEvent e w3) =
             filter (\<lambda>x. d_handler x \<noteq> next_handler w) (deliveries_since w2 (dispatchEvent e w2)))
    \<and> onDirectoryScanError cb w = (None, w)
    \<and> call_unsubscribe (fst (onDirectoryScanError cb w)) w = Inl TypeError"
proof -
  obtain ty where sub: "sub = subscribe ty" using sub_is_subscribe [OF assms(1)] by blast
  let ?h = "next_handler w"
  have wf: "wf_window w" unfolding assms(2) by (rule wf_steps [OF wf_init])
  have u: "fst (sub cb w) = Some (Unsubscribe ty ?h)"
    unfolding sub by (rule subscribe_fresh(1) [OF wf])
  have w3: "w3 = removeEventListener ty ?h w2" unfolding assms(4) u by simp
  have own: "owned ty ?h w2"
    unfolding assms(3) sub by (rule owned_steps [OF owned_after_subscribe [OF wf]])
  have a: "\<exists>ty. fst (sub cb w) = Some (Unsubscribe ty ?h)" using u by blast
  have b: "call_unsubscribe (fst (sub cb w)) w2 = Inr w3" unfolding u w3 by simp
  have c: "call_unsubscribe (fst (sub cb w)) w3 = Inr w3"
    unfolding u w3 by (simp add: remove_idempotent)
  have same: "deliveries_to ?h w3 = deliveries_to ?h w2"
    unfolding w3 by (simp add: deliveries_to_def removeEventListener_def)
  have d: "\<forall>later. deliveries_to ?h (steps later w3) = deliveries_to ?h w2"
    using silent_steps [OF silent_after_remove [OF own]] same unfolding w3 by simp
  have e: "\<forall>e. deliveries_since w3 (dispatchEvent e w3) =
             filter (\<lambda>x. d_handler x \<noteq> ?h) (deliveries_since w2 (dispatchEvent e w2))"
    unfolding w3 using others_after_remove [OF own] by simp
  have f: "onDirectoryScanError cb w = (None, w)
      \<and> call_unsubscribe (fst (onDirectoryScanError cb w)) w = Inl TypeError"
    by (simp add: onDirectoryScanError_def)
  from a b c d e f show ?thesis by blast
qed

theorem unsubscribe_stops_deliveries_witness:
  "call_unsubscribe (fst subscribed_late) (snd subscribed_late) = Inr unsubscribed
   \<and> call_unsubscribe (fst subscribed_late) unsubscribed = Inr unsubscribed
   \<and> deliveries_to 1 (steps late_run unsubscribed) = []
   \<and> map d_seq (deliveries_to 0 (steps late_run unsubscribed)) = [0, 1]"
proof -
  have s: "onDirectoryScanBatch = onDirectoryScanBatch \<or> onDirectoryScanBatch = onDirectoryScanComplete"
    by simp
  have w2: "snd subscribed_late = steps [] (snd (onDirectoryScanBatch 7 (steps early_run init)))"
    by (simp add: subscribed_late_def)
  have w3: "unsubscribed =
      perform (Call (fst (onDirectoryScanBatch 7 (steps early_run init)))) (snd subscribed_late)"
    by (simp add: unsubscribed_def subscribed_late_def)
  have n: "next_handler (steps early_run init) = 1" by (simp add: early_window)
  have q: "deliveries_to 1 (snd subscribed_late) = []"
    by (simp add: subscribed_late_def early_window deliveries_to_def onDirectoryScanBatch_def
        subscribe_def addEventListener_def Let_def)
  note t = unsubscribe_stops_deliveries
      [where sub = onDirectoryScanBatch and cb = 7 and pre = early_run and post = "[]",
       OF s refl w2 w3]
  have a: "call_unsubscribe (fst subscribed_late) (snd subscribed_late) = Inr unsubscribed"
    using t by (simp add: subscribed_late_def)
  have b: "call_unsubscribe (fst subscribed_late) unsubscribed = Inr unsubscribed"
    using t by (simp add: subscribed_late_def)
  have "deliveries_to (next_handler (steps early_run init)) (steps late_run unsubscribed)
      = deliveries_to (next_handler (steps early_run init)) (snd subscribed_late)"
    using t by blast
  then have c: "deliveries_to 1 (steps late_run unsubscribed) = []" using n q by simp
  from a b c other_handler_still_served show ?thesis by (intro conjI)
qed

end
